theory Spec2Isabelle
  imports Main
begin

section \<open>Characters and Python values\<close>

text \<open>
  Text is modelled as Isabelle strings (lists of 8-bit characters). The model agrees with
  Python on ASCII text: letter case, digits (\<^verbatim>\<open>\d\<close>) and word characters
  (\<^verbatim>\<open>\w\<close>, which decide \<^verbatim>\<open>\b\<close>) are the ASCII ones. Python's Unicode
  case folding and Unicode digits lie outside the model.
\<close>

definition upper_letters :: string where
  "upper_letters = ''ABCDEFGHIJKLMNOPQRSTUVWXYZ''"

definition lower_letters :: string where
  "lower_letters = ''abcdefghijklmnopqrstuvwxyz''"

definition digits :: string where
  "digits = ''0123456789''"

definition is_upper :: "char \<Rightarrow> bool" where
  "is_upper c = (c \<in> set upper_letters)"

definition is_lower :: "char \<Rightarrow> bool" where
  "is_lower c = (c \<in> set lower_letters)"

definition is_digit :: "char \<Rightarrow> bool" where
  "is_digit c = (c \<in> set digits)"

definition is_word :: "char \<Rightarrow> bool" where
  "is_word c = (is_upper c \<or> is_lower c \<or> is_digit c \<or> c = CHR ''_'')"

definition lower_char :: "char \<Rightarrow> char" where
  "lower_char c = (case map_of (zip upper_letters lower_letters) c of Some d \<Rightarrow> d | None \<Rightarrow> c)"

definition upper_char :: "char \<Rightarrow> char" where
  "upper_char c = (case map_of (zip lower_letters upper_letters) c of Some d \<Rightarrow> d | None \<Rightarrow> c)"

text \<open>The value of a decimal digit.\<close>

definition digit_val :: "char \<Rightarrow> nat" where
  "digit_val c = (case map_of (zip digits [0..<10]) c of Some n \<Rightarrow> n | None \<Rightarrow> 0)"

text \<open>The characters of ASCII: the ones whose eighth bit is not set.\<close>

definition is_ascii :: "char \<Rightarrow> bool" where
  "is_ascii c = (\<not> digit7 c)"

text \<open>\<^verbatim>\<open>str.lower()\<close> and \<^verbatim>\<open>str.upper()\<close>.\<close>

definition lower :: "string \<Rightarrow> string" where
  "lower s = map lower_char s"

definition upper :: "string \<Rightarrow> string" where
  "upper s = map upper_char s"

text \<open>
  The values a field or an event flag can hold: \<^verbatim>\<open>None\<close> (SQL NULL), a string, an
  integer, or the floating-point NaN. Other floats are not needed by any property below.
\<close>

datatype pyval = PNone | PStr string | PInt int | PNaN

text \<open>Python truthiness (\<^verbatim>\<open>bool(v)\<close>); NaN is truthy.\<close>

fun truthy :: "pyval \<Rightarrow> bool" where
  "truthy PNone = False"
| "truthy (PStr s) = (s \<noteq> [])"
| "truthy (PInt i) = (i \<noteq> 0)"
| "truthy PNaN = True"

fun dec_nat :: "nat \<Rightarrow> string" where
  "dec_nat n = (if n < 10 then [digits ! n] else dec_nat (n div 10) @ [digits ! (n mod 10)])"

declare dec_nat.simps [simp del]

text \<open>\<^verbatim>\<open>str(v)\<close>, which is also \<^verbatim>\<open>format(v, "")\<close> for these values.\<close>

fun py_str :: "pyval \<Rightarrow> string" where
  "py_str PNone = ''None''"
| "py_str (PStr s) = s"
| "py_str (PInt i) = (if i < 0 then CHR ''-'' # dec_nat (nat (- i)) else dec_nat (nat i))"
| "py_str PNaN = ''nan''"

text \<open>\<^verbatim>\<open>a or b\<close>.\<close>

definition py_or :: "pyval \<Rightarrow> pyval \<Rightarrow> pyval" where
  "py_or a b = (if truthy a then a else b)"

text \<open>\<^verbatim>\<open>d.get(key)\<close> on a dictionary: \<^verbatim>\<open>None\<close> when the key is absent.\<close>

definition dict_get :: "(string \<rightharpoonup> pyval) \<Rightarrow> string \<Rightarrow> pyval" where
  "dict_get d key = (case d key of Some v \<Rightarrow> v | None \<Rightarrow> PNone)"

text \<open>
  Every exception the modelled code can raise, one constructor for each raise site.
\<close>

datatype py_error =
    SingleCloseBrace
      \<comment> \<open>ValueError: Single '}' encountered in format string\<close>
  | SingleOpenBrace
      \<comment> \<open>ValueError: Single '{' encountered in format string\<close>
  | UnexpectedOpenBrace
      \<comment> \<open>ValueError: unexpected '{' in field name\<close>
  | ExpectedCloseBrace
      \<comment> \<open>ValueError: expected '}' before end of string\<close>
  | EndOfStringInConversion
      \<comment> \<open>ValueError: end of string while looking for conversion specifier\<close>
  | ExpectedColonAfterConversion
      \<comment> \<open>ValueError: expected ':' after conversion specifier\<close>
  | UnmatchedBraceInSpec
      \<comment> \<open>ValueError: unmatched '{' in format spec\<close>
  | UnknownConversion char
      \<comment> \<open>ValueError: Unknown conversion specifier, with the character\<close>
  | MaxStringRecursion
      \<comment> \<open>ValueError: Max string recursion exceeded\<close>
  | TooManyDecimalDigits
      \<comment> \<open>ValueError: Too many decimal digits in format string\<close>
  | OnlyDotOrBracket
      \<comment> \<open>ValueError: Only '.' or '[' may follow ']' in format field specifier\<close>
  | EmptyAttribute
      \<comment> \<open>ValueError: Empty attribute in format string\<close>
  | MissingBracket
      \<comment> \<open>ValueError: Missing ']' in format string\<close>
  | PositionalIndex
      \<comment> \<open>IndexError: a field \<^verbatim>\<open>{}\<close> or \<^verbatim>\<open>{0}\<close> indexes the empty tuple of positional arguments\<close>
  | StringIndexOutOfRange
      \<comment> \<open>IndexError: string index out of range\<close>
  | StringIndicesMustBeIntegers
      \<comment> \<open>TypeError: string indices must be integers, not 'str'\<close>
  | NotSubscriptable string
      \<comment> \<open>TypeError: the object of the named type is not subscriptable\<close>
  | UnsupportedFormatString string
      \<comment> \<open>TypeError: unsupported format string passed to the \<^verbatim>\<open>__format__\<close> of the named type\<close>
  | InvalidFormatSpecifier string string
      \<comment> \<open>ValueError: Invalid format specifier, with the spec and the type of the object\<close>
  | UnknownFormatCode char string
      \<comment> \<open>ValueError: Unknown format code, with the code and the type of the object\<close>
  | CannotSpecifyBoth
      \<comment> \<open>ValueError: Cannot specify both ',' and '_'.\<close>
  | CannotSpecifyWith char char
      \<comment> \<open>ValueError: Cannot specify the separator with the format code\<close>
  | MissingPrecision
      \<comment> \<open>ValueError: Format specifier missing precision\<close>
  | SignNotAllowed
      \<comment> \<open>ValueError: Sign not allowed in string format specifier\<close>
  | SpaceNotAllowed
      \<comment> \<open>ValueError: Space not allowed in string format specifier\<close>
  | NegativeZeroNotAllowed
      \<comment> \<open>ValueError: Negative zero coercion (z) not allowed in string format specifier\<close>
  | AlternateNotAllowed
      \<comment> \<open>ValueError: Alternate form (#) not allowed in string format specifier\<close>
  | EqualsAlignmentNotAllowed
      \<comment> \<open>ValueError: '=' alignment not allowed in string format specifier\<close>
  | KeyError string
      \<comment> \<open>KeyError from a dictionary lookup\<close>
  | TemplateRequiresField string
      \<comment> \<open>ValueError: Template requires field ... which is not available in data\<close>
  | AttributeError
      \<comment> \<open>AttributeError: a flag that is not a string has no \<^verbatim>\<open>upper\<close>\<close>
  | NoSuitableTemplate string string string "string list"
      \<comment> \<open>ValueError: No suitable template found, with the three flags and the template keys\<close>
  | Raised string
      \<comment> \<open>an exception raised by a collaborator (the enhancer or its client), with the name
          of its class\<close>
  | AttributeLookup string
      \<comment> \<open>not modelled: \<^verbatim>\<open>getattr\<close> on a field value (\<^verbatim>\<open>{name.attr}\<close>), which raises
          AttributeError or returns a method or a number, depending on the attribute\<close>
  | NumberFormat string
      \<comment> \<open>not modelled: \<^verbatim>\<open>format\<close> of an integer or a float with a non-empty format spec\<close>

section \<open>Template Filler: \<^verbatim>\<open>string.Formatter.vformat\<close> over \<^verbatim>\<open>_SafeDict\<close>\<close>

text \<open>
  \<^verbatim>\<open>fill_template\<close> hands the template to \<^verbatim>\<open>string.Formatter\<close> of the standard library
  (CPython 3.11, 64-bit). The formatter is modelled in full for the field values above,
  with two exceptions, each of which has its own error value: an attribute lookup on a
  value, and a non-empty format spec applied to a number.
\<close>

subsection \<open>The values of fields\<close>

text \<open>\<^verbatim>\<open>_SafeDict.__missing__\<close>: the value of a key the dictionary does not hold.\<close>

definition SafeDict_missing :: "string \<Rightarrow> pyval" where
  "SafeDict_missing key = PStr ''[NOT AVAILABLE]''"

text \<open>\<^verbatim>\<open>kwargs[key]\<close> on a \<^verbatim>\<open>_SafeDict\<close>: a dict subclass calls \<^verbatim>\<open>__missing__\<close>
  instead of raising KeyError.\<close>

definition SafeDict_getitem :: "(string \<rightharpoonup> pyval) \<Rightarrow> string \<Rightarrow> pyval" where
  "SafeDict_getitem d key = (case d key of Some v \<Rightarrow> v | None \<Rightarrow> SafeDict_missing key)"

definition PY_SSIZE_T_MAX :: int where
  "PY_SSIZE_T_MAX = 9223372036854775807"

text \<open>
  \<^verbatim>\<open>get_integer\<close> of the field-name parser: the number a text of decimal digits stands
  for, \<open>None\<close> (the C code's -1) for an empty text or one with another character; digits
  that run beyond \<^verbatim>\<open>PY_SSIZE_T_MAX\<close> are an error even when another character follows.
\<close>

fun get_integer_from :: "int \<Rightarrow> string \<Rightarrow> py_error + int option" where
  "get_integer_from accumulator [] = Inr (Some accumulator)"
| "get_integer_from accumulator (c # cs) =
     (if \<not> is_digit c then Inr None
      else if PY_SSIZE_T_MAX < accumulator * 10 + int (digit_val c) then Inl TooManyDecimalDigits
      else get_integer_from (accumulator * 10 + int (digit_val c)) cs)"

definition get_integer :: "string \<Rightarrow> py_error + int option" where
  "get_integer s = (if s = [] then Inr None else get_integer_from 0 s)"

text \<open>\<^verbatim>\<open>Formatter.get_value(key, (), kwargs)\<close>: an integer key indexes the empty tuple of
  positional arguments, a string key is looked up in the keyword dictionary.\<close>

datatype field_key = IntKey int | StrKey string

fun get_value :: "(string \<rightharpoonup> pyval) \<Rightarrow> field_key \<Rightarrow> py_error + pyval" where
  "get_value kwargs (IntKey i) = Inl PositionalIndex"
| "get_value kwargs (StrKey k) = Inr (SafeDict_getitem kwargs k)"

text \<open>The name of the type of a value, as error messages print it.\<close>

fun type_name :: "pyval \<Rightarrow> string" where
  "type_name PNone = ''NoneType''"
| "type_name (PStr s) = ''str''"
| "type_name (PInt i) = ''int''"
| "type_name PNaN = ''float''"

text \<open>\<^verbatim>\<open>getattr(obj, name)\<close> and \<^verbatim>\<open>obj[index]\<close>, where the index is an integer when the
  text between the brackets is a number.\<close>

definition getattr :: "pyval \<Rightarrow> string \<Rightarrow> py_error + pyval" where
  "getattr obj name = Inl (AttributeLookup name)"

fun getitem :: "pyval \<Rightarrow> int option \<Rightarrow> py_error + pyval" where
  "getitem (PStr s) (Some i) =
     (if nat i < length s then Inr (PStr [s ! nat i]) else Inl StringIndexOutOfRange)"
| "getitem (PStr s) None = Inl StringIndicesMustBeIntegers"
| "getitem obj index = Inl (NotSubscriptable (type_name obj))"

text \<open>
  The rest of a field name behind its first part, read from left to right as the
  iterator of \<^verbatim>\<open>formatter_field_name_split\<close> does: \<^verbatim>\<open>.name\<close> is an attribute and
  \<^verbatim>\<open>[name]\<close> an item, each applied to the object before the next one is read.
\<close>

datatype accessor_state = NextAccessor | InAttribute string | InItem string

fun accessors :: "accessor_state \<Rightarrow> pyval \<Rightarrow> string \<Rightarrow> py_error + pyval" where
  "accessors NextAccessor obj [] = Inr obj"
| "accessors NextAccessor obj (c # cs) =
     (if c = CHR ''.'' then accessors (InAttribute []) obj cs
      else if c = CHR ''['' then accessors (InItem []) obj cs
      else Inl OnlyDotOrBracket)"
| "accessors (InAttribute name) obj [] =
     (if name = [] then Inl EmptyAttribute else getattr obj name)"
| "accessors (InAttribute name) obj (c # cs) =
     (if c = CHR ''.'' \<or> c = CHR ''['' then
        (if name = [] then Inl EmptyAttribute
         else
           (case getattr obj name of
              Inl e \<Rightarrow> Inl e
            | Inr obj' \<Rightarrow>
                if c = CHR ''.'' then accessors (InAttribute []) obj' cs
                else accessors (InItem []) obj' cs))
      else accessors (InAttribute (name @ [c])) obj cs)"
| "accessors (InItem name) obj [] = Inl MissingBracket"
| "accessors (InItem name) obj (c # cs) =
     (if c = CHR '']'' then
        (case get_integer name of
           Inl e \<Rightarrow> Inl e
         | Inr index \<Rightarrow>
             if name = [] then Inl EmptyAttribute
             else
               (case getitem obj index of
                  Inl e \<Rightarrow> Inl e
                | Inr obj' \<Rightarrow> accessors NextAccessor obj' cs))
      else accessors (InItem (name @ [c])) obj cs)"

text \<open>
  \<^verbatim>\<open>Formatter.get_field\<close>, with the auto-numbering of \<^verbatim>\<open>_vformat\<close>: an empty field name
  stands for the next positional argument; otherwise the first part of the name, up to
  the first \<^verbatim>\<open>.\<close> or \<^verbatim>\<open>[\<close>, is a positional index when it is a number and a keyword
  otherwise.
\<close>

definition get_field :: "(string \<rightharpoonup> pyval) \<Rightarrow> string \<Rightarrow> py_error + pyval" where
  "get_field kwargs field_name =
     (if field_name = [] then get_value kwargs (IntKey 0)
      else
        let first = takeWhile (\<lambda>c. c \<noteq> CHR ''.'' \<and> c \<noteq> CHR ''['') field_name;
            rest = dropWhile (\<lambda>c. c \<noteq> CHR ''.'' \<and> c \<noteq> CHR ''['') field_name
        in (case get_integer first of
              Inl e \<Rightarrow> Inl e
            | Inr first_idx \<Rightarrow>
                (case get_value kwargs
                        (case first_idx of Some i \<Rightarrow> IntKey i | None \<Rightarrow> StrKey first) of
                   Inl e \<Rightarrow> Inl e
                 | Inr obj \<Rightarrow> accessors NextAccessor obj rest)))"

subsection \<open>Conversions\<close>

definition hex_digits :: string where
  "hex_digits = ''0123456789abcdef''"

text \<open>\<^verbatim>\<open>\xNN\<close>.\<close>

definition hex_escape :: "char \<Rightarrow> string" where
  "hex_escape c =
     [CHR 0x5C, CHR ''x'', hex_digits ! (of_char c div (16::nat)), hex_digits ! (of_char c mod (16::nat))]"

text \<open>One character of \<^verbatim>\<open>repr\<close> of a string; \<open>ascii_only\<close> is \<^verbatim>\<open>ascii\<close>. The characters
  128 to 160 and 173 are the ones of the 8-bit range that are not printable.\<close>

definition repr_char :: "bool \<Rightarrow> char \<Rightarrow> char \<Rightarrow> string" where
  "repr_char ascii_only quote c =
     (if c = quote \<or> c = CHR 0x5C then [CHR 0x5C, c]
      else if c = CHR 0x09 then [CHR 0x5C, CHR ''t'']
      else if c = CHR 0x0A then [CHR 0x5C, CHR ''n'']
      else if c = CHR 0x0D then [CHR 0x5C, CHR ''r'']
      else if (of_char c :: nat) < 32 \<or> (of_char c :: nat) = 127 then hex_escape c
      else if (of_char c :: nat) < 127 then [c]
      else if ascii_only \<or> (of_char c :: nat) \<le> 160 \<or> (of_char c :: nat) = 173 then hex_escape c
      else [c])"

text \<open>\<^verbatim>\<open>repr\<close> of a string: double quotes when the string holds a single quote and no
  double quote, single quotes otherwise.\<close>

definition repr_str :: "bool \<Rightarrow> string \<Rightarrow> string" where
  "repr_str ascii_only s =
     (let quote = (if CHR 0x27 \<in> set s \<and> CHR 0x22 \<notin> set s then CHR 0x22 else CHR 0x27)
      in quote # concat (map (repr_char ascii_only quote) s) @ [quote])"

fun py_repr :: "bool \<Rightarrow> pyval \<Rightarrow> string" where
  "py_repr ascii_only (PStr s) = repr_str ascii_only s"
| "py_repr ascii_only v = py_str v"

text \<open>\<^verbatim>\<open>Formatter.convert_field\<close>.\<close>

definition convert_field :: "pyval \<Rightarrow> char option \<Rightarrow> py_error + pyval" where
  "convert_field val conversion =
     (case conversion of
        None \<Rightarrow> Inr val
      | Some c \<Rightarrow>
          if c = CHR ''s'' then Inr (PStr (py_str val))
          else if c = CHR ''r'' then Inr (PStr (py_repr False val))
          else if c = CHR ''a'' then Inr (PStr (py_repr True val))
          else Inl (UnknownConversion c))"

subsection \<open>Format specs\<close>

text \<open>\<^verbatim>\<open>get_integer\<close> of the format-spec parser: the digits at the start of the text, how
  many they are, and the text behind them.\<close>

fun spec_integer :: "int \<Rightarrow> nat \<Rightarrow> string \<Rightarrow> py_error + (int \<times> nat \<times> string)" where
  "spec_integer accumulator numdigits [] = Inr (accumulator, numdigits, [])"
| "spec_integer accumulator numdigits (c # cs) =
     (if \<not> is_digit c then Inr (accumulator, numdigits, c # cs)
      else if PY_SSIZE_T_MAX < accumulator * 10 + int (digit_val c) then Inl TooManyDecimalDigits
      else spec_integer (accumulator * 10 + int (digit_val c)) (Suc numdigits) cs)"

text \<open>One optional character of the spec.\<close>

fun take_if :: "(char \<Rightarrow> bool) \<Rightarrow> string \<Rightarrow> bool \<times> string" where
  "take_if P [] = (False, [])"
| "take_if P (c # cs) = (if P c then (True, cs) else (False, c # cs))"

definition is_alignment_token :: "char \<Rightarrow> bool" where
  "is_alignment_token c = (c \<in> set ''<>=^'')"

text \<open>The fill character and the alignment, and whether each was given; the default
  alignment of a string is \<^verbatim>\<open><\<close>.\<close>

fun parse_fill_align :: "string \<Rightarrow> (char \<times> char \<times> bool \<times> bool) \<times> string" where
  "parse_fill_align (a # b # rest) =
     (if is_alignment_token b then ((a, b, True, True), rest)
      else if is_alignment_token a then ((CHR '' '', a, False, True), b # rest)
      else ((CHR '' '', CHR ''<'', False, False), a # b # rest))"
| "parse_fill_align [a] =
     (if is_alignment_token a then ((CHR '' '', a, False, True), [])
      else ((CHR '' '', CHR ''<'', False, False), [a]))"
| "parse_fill_align [] = ((CHR '' '', CHR ''<'', False, False), [])"

text \<open>\<^verbatim>\<open>calc_padding\<close> and \<^verbatim>\<open>fill_padding\<close>.\<close>

definition pad :: "char \<Rightarrow> char \<Rightarrow> nat option \<Rightarrow> string \<Rightarrow> string" where
  "pad fill_char align width s =
     (let nchars = length s;
          total = (case width of None \<Rightarrow> nchars | Some w \<Rightarrow> max w nchars);
          lpad = (if align = CHR ''>'' then total - nchars
                  else if align = CHR ''^'' then (total - nchars) div 2
                  else 0);
          rpad = total - nchars - lpad
      in replicate lpad fill_char @ s @ replicate rpad fill_char)"

text \<open>
  \<^verbatim>\<open>format(value, spec)\<close> for a string: \<^verbatim>\<open>parse_internal_render_format_spec\<close>, the
  check of the presentation type, and \<^verbatim>\<open>format_string_internal\<close>, in the order of the C
  code. The sign of a string spec is one of \<^verbatim>\<open>+\<close>, \<^verbatim>\<open>-\<close> and the space.
\<close>

definition format_string_internal ::
  "string \<Rightarrow> char \<Rightarrow> char \<Rightarrow> string \<Rightarrow> bool \<Rightarrow> bool \<Rightarrow> nat option \<Rightarrow> nat option \<Rightarrow>
   py_error + string" where
  "format_string_internal val fill_char align sign no_neg_0 alternate width precision =
     (if sign = '' '' then Inl SpaceNotAllowed
      else if sign \<noteq> [] then Inl SignNotAllowed
      else if no_neg_0 then Inl NegativeZeroNotAllowed
      else if alternate then Inl AlternateNotAllowed
      else if align = CHR ''='' then Inl EqualsAlignmentNotAllowed
      else Inr (pad fill_char align width
                  (case precision of None \<Rightarrow> val | Some p \<Rightarrow> take p val)))"

definition thousands_allowed :: "char \<Rightarrow> char \<Rightarrow> bool" where
  "thousands_allowed separator presentation =
     (presentation \<in> set ''deEfFgG%'' \<or> (separator = CHR ''_'' \<and> presentation \<in> set ''boxX''))"

definition format_str :: "string \<Rightarrow> string \<Rightarrow> py_error + string" where
  "format_str val spec =
     (if spec = [] then Inr val
      else
        (case parse_fill_align spec of ((fill0, align, fill_specified, align_specified), s1) \<Rightarrow>
         (case take_if (\<lambda>c. c \<in> set ''+- '') s1 of (has_sign, s2) \<Rightarrow>
         (case take_if (\<lambda>c. c = CHR ''z'') s2 of (no_neg_0, s3) \<Rightarrow>
         (case take_if (\<lambda>c. c = CHR ''#'') s3 of (alternate, s4) \<Rightarrow>
         (case (if fill_specified then (False, s4) else take_if (\<lambda>c. c = CHR ''0'') s4) of
            (zero, s5) \<Rightarrow>
         (case spec_integer 0 0 s5 of
            Inl e \<Rightarrow> Inl e
          | Inr (w, consumed, s6) \<Rightarrow>
         (case take_if (\<lambda>c. c = CHR '','') s6 of (comma, s7) \<Rightarrow>
         (case take_if (\<lambda>c. c = CHR ''_'') s7 of (underscore, s8) \<Rightarrow>
            if comma \<and> underscore then Inl CannotSpecifyBoth
            else if underscore \<and> s8 \<noteq> [] \<and> hd s8 = CHR '','' then Inl CannotSpecifyBoth
            else
              (case (if s8 \<noteq> [] \<and> hd s8 = CHR ''.''
                     then (case spec_integer 0 0 (tl s8) of
                             Inl e \<Rightarrow> Inl e
                           | Inr (p, consumed_p, s9) \<Rightarrow>
                               if consumed_p = 0 then Inl MissingPrecision
                               else Inr (Some (nat p), s9))
                     else Inr (None, s8)) of
                 Inl e \<Rightarrow> Inl e
               | Inr (precision, s9) \<Rightarrow>
                   if 1 < length s9 then Inl (InvalidFormatSpecifier spec ''str'')
                   else
                     let presentation = (if s9 = [] then CHR ''s'' else hd s9);
                         separator = (if comma then CHR '','' else CHR ''_'')
                     in if (comma \<or> underscore) \<and> \<not> thousands_allowed separator presentation
                        then Inl (CannotSpecifyWith separator presentation)
                        else if presentation \<noteq> CHR ''s''
                        then Inl (UnknownFormatCode presentation ''str'')
                        else format_string_internal val
                               (if zero then CHR ''0'' else fill0) align
                               (if has_sign then [hd s1] else []) no_neg_0 alternate
                               (if consumed = 0 then None else Some (nat w)) precision))))))))))"

text \<open>\<^verbatim>\<open>Formatter.format_field\<close>, which is \<^verbatim>\<open>format(value, format_spec)\<close>.\<close>

fun Formatter_format_field :: "pyval \<Rightarrow> string \<Rightarrow> py_error + string" where
  "Formatter_format_field (PStr s) spec = format_str s spec"
| "Formatter_format_field PNone spec =
     (if spec = [] then Inr (py_str PNone) else Inl (UnsupportedFormatString ''NoneType''))"
| "Formatter_format_field v spec =
     (if spec = [] then Inr (py_str v) else Inl (NumberFormat spec))"

subsection \<open>The parser of format strings\<close>

text \<open>
  \<^verbatim>\<open>formatter_parser\<close> (\<^verbatim>\<open>MarkupIterator_next\<close> and \<^verbatim>\<open>parse_field\<close> of the C code) as a
  machine that reads one character at a time. It gives the characters of the literal
  text and the replacement fields in their order, and the error at which parsing stops,
  if any: the iterator is lazy, so what stands before a malformed field is formatted
  first.
\<close>

datatype item = Chr char | Replacement string "char option" string

datatype parser_state =
    InLiteral
  | InFieldName string
  | InBrackets string
  | AfterBang string
  | AfterConversion string char
  | InFormatSpec string "char option" nat string

fun emit :: "item \<Rightarrow> item list \<times> py_error option \<Rightarrow> item list \<times> py_error option" where
  "emit i (items, err) = (i # items, err)"

fun parser :: "parser_state \<Rightarrow> string \<Rightarrow> item list \<times> py_error option" where
  "parser InLiteral [] = ([], None)"
| "parser InLiteral [c] =
     (if c = CHR ''}'' then ([], Some SingleCloseBrace)
      else if c = CHR ''{'' then ([], Some SingleOpenBrace)
      else ([Chr c], None))"
| "parser InLiteral (c # d # ds) =
     (if c = CHR ''}'' then
        (if d = CHR ''}'' then emit (Chr CHR ''}'') (parser InLiteral ds)
         else ([], Some SingleCloseBrace))
      else if c = CHR ''{'' then
        (if d = CHR ''{'' then emit (Chr CHR ''{'') (parser InLiteral ds)
         else parser (InFieldName []) (d # ds))
      else emit (Chr c) (parser InLiteral (d # ds)))"
| "parser (InFieldName name) [] = ([], Some ExpectedCloseBrace)"
| "parser (InFieldName name) (c # cs) =
     (if c = CHR ''{'' then ([], Some UnexpectedOpenBrace)
      else if c = CHR ''['' then parser (InBrackets (name @ [c])) cs
      else if c = CHR ''}'' then emit (Replacement name None []) (parser InLiteral cs)
      else if c = CHR '':'' then parser (InFormatSpec name None 1 []) cs
      else if c = CHR ''!'' then parser (AfterBang name) cs
      else parser (InFieldName (name @ [c])) cs)"
| "parser (InBrackets name) [] = ([], Some ExpectedCloseBrace)"
| "parser (InBrackets name) (c # cs) =
     (if c = CHR '']'' then parser (InFieldName (name @ [c])) cs
      else parser (InBrackets (name @ [c])) cs)"
| "parser (AfterBang name) [] = ([], Some EndOfStringInConversion)"
| "parser (AfterBang name) (c # cs) = parser (AfterConversion name c) cs"
| "parser (AfterConversion name conversion) [] = ([], Some UnmatchedBraceInSpec)"
| "parser (AfterConversion name conversion) (c # cs) =
     (if c = CHR ''}'' then emit (Replacement name (Some conversion) []) (parser InLiteral cs)
      else if c \<noteq> CHR '':'' then ([], Some ExpectedColonAfterConversion)
      else parser (InFormatSpec name (Some conversion) 1 []) cs)"
| "parser (InFormatSpec name conversion count spec) [] = ([], Some UnmatchedBraceInSpec)"
| "parser (InFormatSpec name conversion count spec) (c # cs) =
     (if c = CHR ''{'' then parser (InFormatSpec name conversion (Suc count) (spec @ [c])) cs
      else if c = CHR ''}'' then
        (if count = 1 then emit (Replacement name conversion spec) (parser InLiteral cs)
         else parser (InFormatSpec name conversion (count - 1) (spec @ [c])) cs)
      else parser (InFormatSpec name conversion count (spec @ [c])) cs)"

subsection \<open>\<^verbatim>\<open>vformat\<close>\<close>

text \<open>
  The body of the loop of \<^verbatim>\<open>_vformat\<close> for one replacement field: the object is
  looked up and converted, the format spec is itself formatted (\<open>expand\<close>, one level
  deeper), and the object is formatted with the result.
\<close>

definition replacement_text ::
  "(string \<Rightarrow> py_error + string) \<Rightarrow> (string \<rightharpoonup> pyval) \<Rightarrow> string \<Rightarrow> char option \<Rightarrow> string \<Rightarrow>
   py_error + string" where
  "replacement_text expand kwargs field_name conversion format_spec =
     (case get_field kwargs field_name of
        Inl e \<Rightarrow> Inl e
      | Inr obj \<Rightarrow>
          (case convert_field obj conversion of
             Inl e \<Rightarrow> Inl e
           | Inr obj' \<Rightarrow>
               (case expand format_spec of
                  Inl e \<Rightarrow> Inl e
                | Inr format_spec' \<Rightarrow> Formatter_format_field obj' format_spec')))"

fun format_items ::
  "(string \<Rightarrow> py_error + string) \<Rightarrow> (string \<rightharpoonup> pyval) \<Rightarrow> item list \<Rightarrow> py_error option \<Rightarrow>
   py_error + string" where
  "format_items expand kwargs [] None = Inr []"
| "format_items expand kwargs [] (Some e) = Inl e"
| "format_items expand kwargs (Chr c # items) err =
     map_sum id ((#) c) (format_items expand kwargs items err)"
| "format_items expand kwargs (Replacement field_name conversion format_spec # items) err =
     (case replacement_text expand kwargs field_name conversion format_spec of
        Inl e \<Rightarrow> Inl e
      | Inr text \<Rightarrow> map_sum id ((@) text) (format_items expand kwargs items err))"

text \<open>
  \<^verbatim>\<open>_vformat\<close> at a recursion depth: the parsed format string is formatted item by
  item. At depth 0 the format spec of a field cannot be formatted any more (\<^verbatim>\<open>_vformat\<close>
  is entered with depth -1 and raises).
\<close>

fun format_parsed ::
  "(string \<Rightarrow> py_error + string) \<Rightarrow> (string \<rightharpoonup> pyval) \<Rightarrow> item list \<times> py_error option \<Rightarrow>
   py_error + string" where
  "format_parsed expand kwargs (items, err) = format_items expand kwargs items err"

primrec vformat_depth :: "nat \<Rightarrow> (string \<rightharpoonup> pyval) \<Rightarrow> string \<Rightarrow> py_error + string" where
  "vformat_depth 0 kwargs format_string =
     format_parsed (\<lambda>spec. Inl MaxStringRecursion) kwargs (parser InLiteral format_string)"
| "vformat_depth (Suc depth) kwargs format_string =
     format_parsed (vformat_depth depth kwargs) kwargs (parser InLiteral format_string)"

text \<open>\<^verbatim>\<open>Formatter.vformat(format_string, (), kwargs)\<close>, which starts at depth 2.\<close>

definition vformat :: "(string \<rightharpoonup> pyval) \<Rightarrow> string \<Rightarrow> py_error + string" where
  "vformat kwargs format_string = vformat_depth 2 kwargs format_string"

subsection \<open>\<^verbatim>\<open>fill_template\<close>\<close>

text \<open>
  \<^verbatim>\<open>fill_template\<close>: missing-data values become the marker, the template is formatted
  over the \<^verbatim>\<open>_SafeDict\<close>, and a KeyError is turned into the ValueError that names the
  field.
\<close>

definition safe_value :: "pyval \<Rightarrow> pyval" where
  "safe_value v =
     (if v \<in> {PNone, PStr '''', PStr ''nan'', PStr ''NaN''} then PStr ''[NOT AVAILABLE]'' else v)"

definition safe_dict :: "(string \<rightharpoonup> pyval) \<Rightarrow> (string \<rightharpoonup> pyval)" where
  "safe_dict field_values = (\<lambda>key. map_option safe_value (field_values key))"

definition fill_template :: "string \<Rightarrow> (string \<rightharpoonup> pyval) \<Rightarrow> py_error + string" where
  "fill_template template_text field_values =
     (case vformat (safe_dict field_values) template_text of
        Inl (KeyError e) \<Rightarrow> Inl (TemplateRequiresField e)
      | Inl e \<Rightarrow> Inl e
      | Inr text \<Rightarrow> Inr text)"

section \<open>Template Selector\<close>

record paragraph_config =
  number :: int
  template :: string
  variations :: "(string \<times> string) list option"

record narrative_template =
  template_id :: string
  paragraphs :: "paragraph_config list"

text \<open>
  The template configuration is the list of the JSON object's items; \<^verbatim>\<open>templates.get\<close>
  is \<open>map_of\<close>. A template is a non-empty dictionary, so \<^verbatim>\<open>if template:\<close> tests
  that the key is present.
\<close>

type_synonym templates = "(string \<times> narrative_template) list"

text \<open>\<^verbatim>\<open>(event_data.get(key) or "").upper()\<close>: a truthy value that is not a string has
  no \<^verbatim>\<open>upper\<close>.\<close>

definition flag :: "(string \<rightharpoonup> pyval) \<Rightarrow> string \<Rightarrow> py_error + string" where
  "flag event_data key =
     (case py_or (dict_get event_data key) (PStr []) of
        PStr s \<Rightarrow> Inr (upper s)
      | _ \<Rightarrow> Inl AttributeError)"

text \<open>The cascade of \<^verbatim>\<open>select_template\<close>, last priority first; each falls through to
  the next one when its condition fails or its template is not configured.\<close>

definition priority5 ::
  "templates \<Rightarrow> string \<Rightarrow> string \<Rightarrow> string \<Rightarrow> py_error + narrative_template" where
  "priority5 ts serious hosp med_imp =
     (case map_of ts ''ae_non_serious'' of
        Some t \<Rightarrow> Inr t
      | None \<Rightarrow> Inl (NoSuitableTemplate serious hosp med_imp (map fst ts)))"

definition priority4 ::
  "templates \<Rightarrow> string \<Rightarrow> string \<Rightarrow> string \<Rightarrow> py_error + narrative_template" where
  "priority4 ts serious hosp med_imp =
     (if serious = ''Y'' then
        (case map_of ts ''sae_generic'' of
           Some t \<Rightarrow> Inr t
         | None \<Rightarrow>
             (case map_of ts ''sae_hospitalization'' of
                Some t \<Rightarrow> Inr t
              | None \<Rightarrow> priority5 ts serious hosp med_imp))
      else priority5 ts serious hosp med_imp)"

definition priority3 ::
  "templates \<Rightarrow> string \<Rightarrow> string \<Rightarrow> string \<Rightarrow> py_error + narrative_template" where
  "priority3 ts serious hosp med_imp =
     (if serious = ''Y'' \<and> hosp \<noteq> ''Y'' then
        (case map_of ts ''sae_medically_important'' of
           Some t \<Rightarrow> Inr t
         | None \<Rightarrow> priority4 ts serious hosp med_imp)
      else priority4 ts serious hosp med_imp)"

definition priority2 ::
  "templates \<Rightarrow> string \<Rightarrow> string \<Rightarrow> string \<Rightarrow> py_error + narrative_template" where
  "priority2 ts serious hosp med_imp =
     (if serious = ''Y'' \<and> hosp = ''N'' \<and> med_imp = ''Y'' then
        (case map_of ts ''sae_medically_important'' of
           Some t \<Rightarrow> Inr t
         | None \<Rightarrow> priority3 ts serious hosp med_imp)
      else priority3 ts serious hosp med_imp)"

definition priority1 ::
  "templates \<Rightarrow> string \<Rightarrow> string \<Rightarrow> string \<Rightarrow> py_error + narrative_template" where
  "priority1 ts serious hosp med_imp =
     (if serious = ''Y'' \<and> hosp = ''Y'' then
        (case map_of ts ''sae_hospitalization'' of
           Some t \<Rightarrow> Inr t
         | None \<Rightarrow> priority2 ts serious hosp med_imp)
      else priority2 ts serious hosp med_imp)"

definition select_template ::
  "templates \<Rightarrow> (string \<rightharpoonup> pyval) \<Rightarrow> py_error + narrative_template" where
  "select_template ts event_data =
     (case flag event_data ''serious_event'' of
        Inl e \<Rightarrow> Inl e
      | Inr serious \<Rightarrow>
     (case flag event_data ''hospitalization'' of
        Inl e \<Rightarrow> Inl e
      | Inr hosp \<Rightarrow>
     (case flag event_data ''other_medically_important'' of
        Inl e \<Rightarrow> Inl e
      | Inr med_imp \<Rightarrow> priority1 ts serious hosp med_imp)))"

section \<open>Field Resolver: value mapping and date formatting\<close>

record field_config =
  value_map :: "(string \<times> pyval) list option"
  format :: "string option"

text \<open>\<^verbatim>\<open>value_map.get(key)\<close> for a key that is any Python value: the keys of the JSON
  object are strings, so only a string can be found.\<close>

fun value_map_get :: "(string \<times> pyval) list \<Rightarrow> pyval \<Rightarrow> pyval" where
  "value_map_get vm (PStr s) = dict_get (map_of vm) s"
| "value_map_get vm v = PNone"

definition apply_value_mapping :: "string \<Rightarrow> pyval \<Rightarrow> field_config \<Rightarrow> pyval" where
  "apply_value_mapping field_name val config =
     (case value_map config of
        None \<Rightarrow> val
      | Some vm \<Rightarrow>
          if val = PNone \<or> vm = [] then val
          else
            let mapped_value =
                  py_or (value_map_get vm (PStr (upper (py_str val)))) (value_map_get vm val)
            in if mapped_value = PNone then val else mapped_value)"

subsection \<open>Dates\<close>

text \<open>A date is (year, month, day).\<close>

type_synonym date = "nat \<times> nat \<times> nat"

definition is_leap :: "nat \<Rightarrow> bool" where
  "is_leap y = (y mod 4 = 0 \<and> (y mod 100 \<noteq> 0 \<or> y mod 400 = 0))"

definition days_in_month :: "nat \<Rightarrow> nat \<Rightarrow> nat" where
  "days_in_month y m =
     (if m = 2 then (if is_leap y then 29 else 28)
      else if m = 4 \<or> m = 6 \<or> m = 9 \<or> m = 11 then 30 else 31)"

text \<open>The dates \<^verbatim>\<open>datetime\<close> accepts: years 1 to 9999.\<close>

definition valid_date :: "date \<Rightarrow> bool" where
  "valid_date d =
     (case d of (y, m, dd) \<Rightarrow>
        1 \<le> y \<and> y \<le> 9999 \<and> 1 \<le> m \<and> m \<le> 12 \<and> 1 \<le> dd \<and> dd \<le> days_in_month y m)"

definition month_names :: "string list" where
  "month_names =
     [''Jan'', ''Feb'', ''Mar'', ''Apr'', ''May'', ''Jun'',
      ''Jul'', ''Aug'', ''Sep'', ''Oct'', ''Nov'', ''Dec'']"

text \<open>
  The directives of \<^verbatim>\<open>strptime\<close>, each a regular expression whose alternatives are tried
  longest first. Every directive is followed by a literal hyphen or by the end of the
  string, so the first alternative that matches is the only one that can complete a match.
\<close>

text \<open>\<^verbatim>\<open>%Y\<close>: \<^verbatim>\<open>\d\d\d\d\<close>.\<close>

fun parse_year :: "string \<Rightarrow> (nat \<times> string) option" where
  "parse_year (a # b # c # d # rest) =
     (if is_digit a \<and> is_digit b \<and> is_digit c \<and> is_digit d
      then Some (digit_val a * 1000 + digit_val b * 100 + digit_val c * 10 + digit_val d, rest)
      else None)"
| "parse_year s = None"

text \<open>\<^verbatim>\<open>%m\<close>: \<^verbatim>\<open>1[0-2]|0[1-9]|[1-9]\<close>.\<close>

fun parse_month :: "string \<Rightarrow> (nat \<times> string) option" where
  "parse_month (a # b # rest) =
     (if a = CHR ''1'' \<and> b \<in> set ''012'' then Some (10 + digit_val b, rest)
      else if a = CHR ''0'' \<and> b \<in> set ''123456789'' then Some (digit_val b, rest)
      else if a \<in> set ''123456789'' then Some (digit_val a, b # rest)
      else None)"
| "parse_month [a] = (if a \<in> set ''123456789'' then Some (digit_val a, []) else None)"
| "parse_month [] = None"

text \<open>\<^verbatim>\<open>%d\<close>: \<^verbatim>\<open>3[0-1]|[1-2]\d|0[1-9]|[1-9]| [1-9]\<close>.\<close>

fun parse_day :: "string \<Rightarrow> (nat \<times> string) option" where
  "parse_day (a # b # rest) =
     (if a = CHR ''3'' \<and> b \<in> set ''01'' then Some (30 + digit_val b, rest)
      else if a \<in> set ''12'' \<and> is_digit b then Some (digit_val a * 10 + digit_val b, rest)
      else if a = CHR ''0'' \<and> b \<in> set ''123456789'' then Some (digit_val b, rest)
      else if a \<in> set ''123456789'' then Some (digit_val a, b # rest)
      else if a = CHR '' '' \<and> b \<in> set ''123456789'' then Some (digit_val b, rest)
      else None)"
| "parse_day [a] = (if a \<in> set ''123456789'' then Some (digit_val a, []) else None)"
| "parse_day [] = None"

text \<open>\<^verbatim>\<open>%b\<close>: an abbreviated month name, in any letter case.\<close>

fun find_index_from :: "nat \<Rightarrow> 'a \<Rightarrow> 'a list \<Rightarrow> nat option" where
  "find_index_from i x [] = None"
| "find_index_from i x (y # ys) = (if x = y then Some i else find_index_from (Suc i) x ys)"

fun parse_month_name :: "string \<Rightarrow> (nat \<times> string) option" where
  "parse_month_name (a # b # c # rest) =
     (case find_index_from 1 (lower [a, b, c]) (map lower month_names) of
        Some m \<Rightarrow> Some (m, rest)
      | None \<Rightarrow> None)"
| "parse_month_name s = None"

fun parse_hyphen :: "string \<Rightarrow> string option" where
  "parse_hyphen (c # rest) = (if c = CHR ''-'' then Some rest else None)"
| "parse_hyphen [] = None"

text \<open>\<^verbatim>\<open>datetime.strptime(s, "%Y-%m-%d")\<close>; \<open>None\<close> is ValueError: the text does not match,
  unconverted data remains, or the date does not exist.\<close>

definition strptime_ymd :: "string \<Rightarrow> date option" where
  "strptime_ymd s =
     (case parse_year s of None \<Rightarrow> None | Some (y, s1) \<Rightarrow>
      case parse_hyphen s1 of None \<Rightarrow> None | Some s2 \<Rightarrow>
      case parse_month s2 of None \<Rightarrow> None | Some (m, s3) \<Rightarrow>
      case parse_hyphen s3 of None \<Rightarrow> None | Some s4 \<Rightarrow>
      case parse_day s4 of None \<Rightarrow> None | Some (d, s5) \<Rightarrow>
        if s5 = [] \<and> valid_date (y, m, d) then Some (y, m, d) else None)"

text \<open>\<^verbatim>\<open>datetime.strptime(s, "%d-%b-%Y")\<close>.\<close>

definition strptime_dby :: "string \<Rightarrow> date option" where
  "strptime_dby s =
     (case parse_day s of None \<Rightarrow> None | Some (d, s1) \<Rightarrow>
      case parse_hyphen s1 of None \<Rightarrow> None | Some s2 \<Rightarrow>
      case parse_month_name s2 of None \<Rightarrow> None | Some (m, s3) \<Rightarrow>
      case parse_hyphen s3 of None \<Rightarrow> None | Some s4 \<Rightarrow>
      case parse_year s4 of None \<Rightarrow> None | Some (y, s5) \<Rightarrow>
        if s5 = [] \<and> valid_date (y, m, d) then Some (y, m, d) else None)"

text \<open>
  \<^verbatim>\<open>strftime("%d-%b-%Y")\<close> in the C locale: a two-digit day, the month abbreviation and
  the year as glibc prints it, without padding (a year below 1000 has fewer than four
  digits there; other C libraries pad it).
\<close>

definition strftime :: "date \<Rightarrow> string" where
  "strftime d =
     (case d of (y, m, dd) \<Rightarrow>
        (if dd < 10 then CHR ''0'' # dec_nat dd else dec_nat dd) @ ''-'' @
        month_names ! (m - 1) @ ''-'' @ dec_nat y)"

text \<open>\<^verbatim>\<open>FieldMapper._parse_date\<close>: a value that is not a string raises TypeError in both
  attempts, which is caught.\<close>

fun parse_date :: "pyval \<Rightarrow> date option" where
  "parse_date (PStr s) =
     (case strptime_ymd s of Some d \<Rightarrow> Some d | None \<Rightarrow> strptime_dby s)"
| "parse_date v = None"

definition format_field :: "string \<Rightarrow> pyval \<Rightarrow> field_config \<Rightarrow> pyval" where
  "format_field field_name val config =
     (if val = PNone then PNone
      else if format config = Some ''date'' then
        (case parse_date val of Some parsed \<Rightarrow> PStr (strftime parsed) | None \<Rightarrow> val)
      else val)"

section \<open>Business Rule Engine\<close>

text \<open>
  \<^verbatim>\<open>re.sub(pattern, repl, text)\<close>. A matcher stands for a compiled pattern with its
  replacement: given whether the character before the current position is a word
  character (for \<^verbatim>\<open>\b\<close>) and the text from the current position on, it returns the
  length of the match that starts here and the text replacing it. \<open>re_sub\<close> replaces the
  leftmost match, goes on behind it, and copies a character where no match starts. After
  an empty match (no pattern below has one) the replacement is inserted and the scan moves
  on by one character.
\<close>

type_synonym matcher = "bool \<Rightarrow> string \<Rightarrow> (nat \<times> string) option"

function re_sub :: "matcher \<Rightarrow> bool \<Rightarrow> string \<Rightarrow> string" where
  "re_sub m w [] = []"
| "re_sub m w (c # cs) =
     (case m w (c # cs) of
        None \<Rightarrow> c # re_sub m (is_word c) cs
      | Some (n, r) \<Rightarrow>
          if n = 0 then r @ c # re_sub m (is_word c) cs
          else r @ re_sub m (is_word (last (take n (c # cs)))) (drop n (c # cs)))"
  by pat_completeness auto
termination
  by (relation "measure (\<lambda>(m, w, s). length s)") auto

text \<open>\<^verbatim>\<open>\b\<close> between a character (word or not) and the rest of the text.\<close>

definition word_boundary :: "bool \<Rightarrow> string \<Rightarrow> bool" where
  "word_boundary w s = (w \<noteq> (s \<noteq> [] \<and> is_word (hd s)))"

text \<open>The text starts with the literal, compared exactly or ignoring case.\<close>

definition starts_with :: "bool \<Rightarrow> string \<Rightarrow> string \<Rightarrow> bool" where
  "starts_with ignorecase p s =
     (length p \<le> length s \<and>
      (if ignorecase then lower (take (length p) s) = lower p else take (length p) s = p))"

text \<open>\<^verbatim>\<open>\bLITERAL\b\<close> replaced by a fixed text (rules 1 and 6).\<close>

definition word_literal :: "bool \<Rightarrow> string \<Rightarrow> string \<Rightarrow> matcher" where
  "word_literal ignorecase p repl w s =
     (if word_boundary w s \<and> starts_with ignorecase p s \<and>
         word_boundary (is_word (last (take (length p) s))) (drop (length p) s)
      then Some (length p, repl) else None)"

text \<open>\<^verbatim>\<open>\d{4}-\d{2}-\d{2}\<close> on a text of ten characters.\<close>

definition iso_pattern :: "(char \<Rightarrow> bool) list" where
  "iso_pattern =
     [is_digit, is_digit, is_digit, is_digit, (=) CHR ''-'',
      is_digit, is_digit, (=) CHR ''-'', is_digit, is_digit]"

definition iso_shaped :: "string \<Rightarrow> bool" where
  "iso_shaped raw = list_all2 (\<lambda>p c. p c) iso_pattern raw"

text \<open>\<^verbatim>\<open>_date_repl\<close>: an ISO date is replaced by its \<^verbatim>\<open>%d-%b-%Y\<close> form, a token that
  does not parse by itself.\<close>

definition date_repl :: "string \<Rightarrow> string" where
  "date_repl raw = (case strptime_ymd raw of Some parsed \<Rightarrow> strftime parsed | None \<Rightarrow> raw)"

text \<open>Rule 2: \<^verbatim>\<open>\b\d{4}-\d{2}-\d{2}\b\<close> replaced by \<^verbatim>\<open>_date_repl\<close>.\<close>

definition iso_date :: matcher where
  "iso_date w s =
     (if word_boundary w s \<and> iso_shaped (take 10 s) \<and>
         word_boundary (is_word (last (take 10 s))) (drop 10 s)
      then Some (10, date_repl (take 10 s)) else None)"

text \<open>Rules 3 and 4: \<^verbatim>\<open>(trigger)([^\.]+)\<close>, ignoring case, replaced by group 1 and
  the lowercased group 2.\<close>

definition clause_after :: "string \<Rightarrow> matcher" where
  "clause_after trigger w s =
     (if starts_with True trigger s then
        (let clause = takeWhile (\<lambda>c. c \<noteq> CHR ''.'') (drop (length trigger) s)
         in if clause = [] then None
            else Some (length trigger + length clause,
                       take (length trigger) s @ lower clause))
      else None)"

text \<open>Rule 5: \<^verbatim>\<open>(\d+)-YEARS-old\<close>, ignoring case, replaced by \<^verbatim>\<open>\1-year-old\<close>.\<close>

definition years_old :: matcher where
  "years_old w s =
     (let age = takeWhile is_digit s
      in if age \<noteq> [] \<and> starts_with True ''-YEARS-old'' (drop (length age) s)
         then Some (length age + 10, age @ ''-year-old'') else None)"

text \<open>Rule 7: \<^verbatim>\<open>(SAE of )([A-Z])\<close> replaced by group 1 and the lowercased letter.\<close>

definition sae_of :: matcher where
  "sae_of w s =
     (if starts_with False ''SAE of '' s then
        (case drop 7 s of
           [] \<Rightarrow> None
         | c # rest \<Rightarrow> if is_upper c then Some (8, ''SAE of '' @ [lower_char c]) else None)
      else None)"

definition apply_business_rules :: "string \<Rightarrow> string" where
  "apply_business_rules text0 =
     (let text1 = re_sub (word_literal True ''last dose'' ''most recent dose'') False text0;
          text2 = re_sub iso_date False text1;
          text3 = re_sub (clause_after ''action taken with study drug was '') False text2;
          text4 = re_sub (clause_after ''assessed the event as '') False text3;
          text5 = re_sub years_old False text4;
          text6a = re_sub (word_literal False ''WHITE'' ''White'') False text5;
          text6b = re_sub (word_literal False ''BLACK OR AFRICAN AMERICAN''
                             ''Black or African American'') False text6a;
          text6c = re_sub (word_literal False ''ASIAN'' ''Asian'') False text6b;
          text6d = re_sub (word_literal False ''NOT HISPANIC OR LATINO''
                             ''Not Hispanic or Latino'') False text6c;
          text6e = re_sub (word_literal False ''HISPANIC OR LATINO''
                             ''Hispanic or Latino'') False text6d
      in re_sub sae_of False text6e)"

section \<open>Narrative Assembler\<close>

definition generate_paragraph ::
  "paragraph_config \<Rightarrow> (string \<rightharpoonup> pyval) \<Rightarrow> py_error + string" where
  "generate_paragraph paragraph_config field_values =
     (let base_template = template paragraph_config;
          template_text =
            (case variations paragraph_config of
               None \<Rightarrow> base_template
             | Some vs \<Rightarrow>
                 if vs = [] then base_template
                 else
                   let key = (if truthy (dict_get field_values ''end_date'')
                              then ''with_end_date'' else ''without_end_date'')
                   in (case map_of vs key of
                         None \<Rightarrow> base_template
                       | Some variation_text \<Rightarrow>
                           if variation_text = [] then base_template
                           else base_template @ '' '' @ variation_text))
      in map_sum id apply_business_rules (fill_template template_text field_values))"

text \<open>The loop over the sorted paragraphs; the first error ends it.\<close>

fun generate_paragraphs ::
  "paragraph_config list \<Rightarrow> (string \<rightharpoonup> pyval) \<Rightarrow> py_error + string list" where
  "generate_paragraphs [] field_values = Inr []"
| "generate_paragraphs (p # ps) field_values =
     (case generate_paragraph p field_values of
        Inl e \<Rightarrow> Inl e
      | Inr paragraph_text \<Rightarrow>
          map_sum id ((#) paragraph_text) (generate_paragraphs ps field_values))"

text \<open>\<^verbatim>\<open>sep.join(xs)\<close>.\<close>

fun join :: "string \<Rightarrow> string list \<Rightarrow> string" where
  "join sep [] = []"
| "join sep [x] = x"
| "join sep (x # y # ys) = x @ sep @ join sep (y # ys)"

subsection \<open>The enhancement collaborator\<close>

text \<open>
  An enhancer is whatever object \<^verbatim>\<open>NarrativeGenerator\<close> was given: calling its
  \<^verbatim>\<open>enhance\<close> with the field values, the template identifier and the baseline text
  raises or returns a text.
\<close>

type_synonym enhancer = "(string \<rightharpoonup> pyval) \<Rightarrow> string \<Rightarrow> string \<Rightarrow> py_error + string"

text \<open>
  What \<^verbatim>\<open>client.chat.completions.create\<close> does: it raises, or it returns a response
  whose choices each carry a message content (a string or \<^verbatim>\<open>None\<close>). Of a raised
  exception the model keeps whether its class derives from \<^verbatim>\<open>Exception\<close> (a timeout, a
  transport error) or only from \<^verbatim>\<open>BaseException\<close> (\<^verbatim>\<open>KeyboardInterrupt\<close>,
  \<^verbatim>\<open>SystemExit\<close>), and the name of the class. The client sees the two prompts, which
  are built from the field values, the template identifier and the baseline text, so it
  is a function of these three.
\<close>

datatype exception_base = DerivesFromException | DerivesFromBaseExceptionOnly

datatype client_result =
    ClientRaises exception_base string
  | ClientResponse "string option list"

type_synonym client = "(string \<rightharpoonup> pyval) \<Rightarrow> string \<Rightarrow> string \<Rightarrow> client_result"

text \<open>The characters \<^verbatim>\<open>str.strip()\<close> removes, of the 8-bit range.\<close>

definition is_space :: "char \<Rightarrow> bool" where
  "is_space c =
     (c \<in> {CHR 0x09, CHR 0x0A, CHR 0x0B, CHR 0x0C, CHR 0x0D,
           CHR 0x1C, CHR 0x1D, CHR 0x1E, CHR 0x1F, CHR '' '', CHR 0x85, CHR 0xA0})"

text \<open>\<^verbatim>\<open>str.strip()\<close>.\<close>

definition strip :: "string \<Rightarrow> string" where
  "strip s = rev (dropWhile is_space (rev (dropWhile is_space s)))"

text \<open>
  \<^verbatim>\<open>OpenAINarrativeEnhancer.enhance\<close>: everything from the client call to the return is
  inside \<^verbatim>\<open>try\<close>, so an exception of the client that derives from \<^verbatim>\<open>Exception\<close> and a
  response without choices (IndexError) both end in \<^verbatim>\<open>except Exception\<close>, which returns
  the baseline text; any other exception of the client passes through. A content that is
  \<^verbatim>\<open>None\<close> or empty is replaced by the baseline text before \<^verbatim>\<open>strip\<close>.
\<close>

definition enhance :: "client \<Rightarrow> enhancer" where
  "enhance cl field_values tid baseline_text =
     (case cl field_values tid baseline_text of
        ClientRaises base name \<Rightarrow>
          (case base of
             DerivesFromException \<Rightarrow> Inr baseline_text
           | DerivesFromBaseExceptionOnly \<Rightarrow> Inl (Raised name))
      | ClientResponse choices \<Rightarrow>
          (case choices of
             [] \<Rightarrow> Inr baseline_text
           | content # _ \<Rightarrow>
               Inr (strip (case content of
                             None \<Rightarrow> baseline_text
                           | Some text \<Rightarrow> if text = [] then baseline_text else text))))"

text \<open>
  Three collaborators that the statements below name: an enhancer whose \<^verbatim>\<open>enhance\<close>
  raises RuntimeError (the generator calls whatever object it was given; the tests give
  it a stand-in), a client whose call times out, and a client whose call is interrupted
  from the keyboard.
\<close>

definition raising_enhancer :: enhancer where
  "raising_enhancer field_values tid baseline_text = Inl (Raised ''RuntimeError'')"

definition timed_out_client :: client where
  "timed_out_client field_values tid baseline_text =
     ClientRaises DerivesFromException ''APITimeoutError''"

definition interrupted_client :: client where
  "interrupted_client field_values tid baseline_text =
     ClientRaises DerivesFromBaseExceptionOnly ''KeyboardInterrupt''"

text \<open>
  \<^verbatim>\<open>generate_narrative\<close>. The two database reads are its inputs here: \<open>field_values\<close> is
  the result of \<^verbatim>\<open>map_all_fields\<close> and \<open>event_data\<close> the row of the event (empty when
  there is none). Python's \<^verbatim>\<open>sorted\<close> is stable, as \<open>sort_key\<close> is. The call of the
  enhancer is not guarded: what its \<^verbatim>\<open>enhance\<close> raises, \<^verbatim>\<open>generate_narrative\<close> raises.
\<close>

definition generate_narrative ::
  "templates \<Rightarrow> enhancer option \<Rightarrow> (string \<rightharpoonup> pyval) \<Rightarrow> (string \<rightharpoonup> pyval) \<Rightarrow> py_error + string" where
  "generate_narrative ts enhancer field_values event_data =
     (case select_template ts event_data of
        Inl e \<Rightarrow> Inl e
      | Inr t \<Rightarrow>
          (case generate_paragraphs (sort_key number (paragraphs t)) field_values of
             Inl e \<Rightarrow> Inl e
           | Inr ps \<Rightarrow>
               let narrative_text = join [CHR 0x0A, CHR 0x0A] ps
               in (case enhancer of
                     None \<Rightarrow> Inr narrative_text
                   | Some en \<Rightarrow> en field_values (template_id t) narrative_text)))"

section \<open>Templates as segments\<close>

text \<open>
  To speak about the placeholders of a template, a template text is written as a list of
  segments: literal text, whose braces are escaped by doubling, and placeholders with a
  plain name (one that does not start with a digit and is free of the characters that
  start a conversion, a format spec, an attribute or an index).
\<close>

datatype segment = Lit string | Field string

definition escape_braces :: "string \<Rightarrow> string" where
  "escape_braces s =
     concat (map (\<lambda>c. if c = CHR ''{'' \<or> c = CHR ''}'' then [c, c] else [c]) s)"

fun render_segment :: "segment \<Rightarrow> string" where
  "render_segment (Lit s) = escape_braces s"
| "render_segment (Field n) = ''{'' @ n @ ''}''"

definition render_template :: "segment list \<Rightarrow> string" where
  "render_template segs = concat (map render_segment segs)"

definition plain_name :: "string \<Rightarrow> bool" where
  "plain_name n = (n \<noteq> [] \<and> \<not> is_digit (hd n) \<and> list_all (\<lambda>c. c \<notin> set ''{}!:.['') n)"

fun plain_segment :: "segment \<Rightarrow> bool" where
  "plain_segment (Lit s) = True"
| "plain_segment (Field n) = plain_name n"

text \<open>What a segment becomes when the template is filled from a keyword dictionary.\<close>

fun expand_segment :: "(string \<rightharpoonup> pyval) \<Rightarrow> segment \<Rightarrow> string" where
  "expand_segment kwargs (Lit s) = s"
| "expand_segment kwargs (Field n) = py_str (SafeDict_getitem kwargs n)"

definition expand_template :: "(string \<rightharpoonup> pyval) \<Rightarrow> segment list \<Rightarrow> string" where
  "expand_template kwargs segs = concat (map (expand_segment kwargs) segs)"

section \<open>Texts the rules leave alone\<close>

text \<open>
  To speak about idempotence: a match is inert in a text when its replacement is the
  matched text itself; a text is quiet for a matcher when, at every position, no match
  starts or the match is inert; and a text is lowered from another one when it is the
  same text with some characters lower-cased.
\<close>

fun inert :: "(nat \<times> string) option \<Rightarrow> string \<Rightarrow> bool" where
  "inert None s = True"
| "inert (Some (k, r)) s = (0 < k \<and> k \<le> length s \<and> r = take k s)"

fun quiet :: "matcher \<Rightarrow> bool \<Rightarrow> string \<Rightarrow> bool" where
  "quiet m w [] = True"
| "quiet m w (c # cs) = (inert (m w (c # cs)) (c # cs) \<and> quiet m (is_word c) cs)"

definition lowered :: "string \<Rightarrow> string \<Rightarrow> bool" where
  "lowered s' s = list_all2 (\<lambda>x y. x = y \<or> x = lower_char y) s' s"

section \<open>Properties\<close>

lemmas char_class_defs =
  upper_letters_def lower_letters_def digits_def is_upper_def is_lower_def is_digit_def
  is_word_def lower_char_def upper_char_def

subsection \<open>Filling a template of plain segments\<close>

lemma parser_literal_char:
  "c \<noteq> CHR ''{'' \<Longrightarrow> c \<noteq> CHR ''}'' \<Longrightarrow>
   parser InLiteral (c # rest) = emit (Chr c) (parser InLiteral rest)"
  by (cases rest) auto

lemma parser_escape_braces:
  "parser InLiteral (escape_braces s @ rest) =
     foldr (\<lambda>c. emit (Chr c)) s (parser InLiteral rest)"
proof (induction s)
  case Nil
  show ?case by (simp add: escape_braces_def)
next
  case (Cons c s)
  have e: "escape_braces (c # s) @ rest =
      (if c = CHR ''{'' \<or> c = CHR ''}'' then [c, c] else [c]) @ escape_braces s @ rest"
    by (simp add: escape_braces_def)
  show ?case
  proof (cases "c = CHR ''{'' \<or> c = CHR ''}''")
    case True
    then show ?thesis using Cons e by auto
  next
    case False
    then show ?thesis using Cons e by (simp add: parser_literal_char)
  qed
qed

lemma parser_field_name:
  "list_all (\<lambda>c. c \<notin> set ''{}!:.['') n \<Longrightarrow>
   parser (InFieldName acc) (n @ CHR ''}'' # rest) =
     emit (Replacement (acc @ n) None []) (parser InLiteral rest)"
  by (induction n arbitrary: acc) auto

lemma parser_field:
  assumes "plain_name n"
  shows "parser InLiteral (CHR ''{'' # n @ CHR ''}'' # rest) =
           emit (Replacement n None []) (parser InLiteral rest)"
proof -
  from assms obtain c cs where n: "n = c # cs" and c: "c \<noteq> CHR ''{''"
    by (cases n) (auto simp: plain_name_def)
  have "parser InLiteral (CHR ''{'' # n @ CHR ''}'' # rest) =
      parser (InFieldName []) (n @ CHR ''}'' # rest)"
    using n c by simp
  then show ?thesis using assms parser_field_name[of n "[]" rest] by (simp add: plain_name_def)
qed

lemma map_sum_Cons_append:
  "map_sum id ((#) c) (map_sum id ((@) s) x) = map_sum id ((@) (c # s)) x"
  by (cases x) simp_all

lemma map_sum_append_append:
  "map_sum id ((@) s) (map_sum id ((@) t) x) = map_sum id ((@) (s @ t)) x"
  by (cases x) simp_all

lemma format_parsed_Chr:
  "format_parsed expand kw (emit (Chr c) r) = map_sum id ((#) c) (format_parsed expand kw r)"
  by (cases r) simp

lemma format_parsed_literal:
  "format_parsed expand kw (foldr (\<lambda>c. emit (Chr c)) s r) =
     map_sum id ((@) s) (format_parsed expand kw r)"
proof (induction s)
  case Nil
  show ?case by (cases "format_parsed expand kw r") simp_all
next
  case (Cons c s)
  then show ?case
    by (cases "format_parsed expand kw r") (simp_all add: format_parsed_Chr)
qed

lemma format_parsed_Replacement:
  "format_parsed expand kw (emit (Replacement n conversion spec) r) =
     (case replacement_text expand kw n conversion spec of
        Inl e \<Rightarrow> Inl e
      | Inr text \<Rightarrow> map_sum id ((@) text) (format_parsed expand kw r))"
  by (cases r) (auto split: sum.splits)

lemma Formatter_format_field_empty: "Formatter_format_field v [] = Inr (py_str v)"
  by (cases v) (simp_all add: format_str_def)

lemma get_field_plain:
  assumes "plain_name n"
  shows "get_field kw n = Inr (SafeDict_getitem kw n)"
proof -
  from assms obtain c cs where n: "n = c # cs" and c: "\<not> is_digit c"
    by (cases n) (auto simp: plain_name_def)
  have "list_all (\<lambda>c. c \<noteq> CHR ''.'' \<and> c \<noteq> CHR ''['') n"
    using assms by (auto simp: plain_name_def list_all_iff)
  then have t: "takeWhile (\<lambda>c. c \<noteq> CHR ''.'' \<and> c \<noteq> CHR ''['') n = n"
    and d: "dropWhile (\<lambda>c. c \<noteq> CHR ''.'' \<and> c \<noteq> CHR ''['') n = []"
    by (simp_all add: list_all_iff)
  have g: "get_integer n = Inr None" using n c by (simp add: get_integer_def)
  have ne: "n \<noteq> []" using n by simp
  show ?thesis unfolding get_field_def Let_def t d g using ne by simp
qed

lemma replacement_text_plain:
  assumes "plain_name n" and "expand [] = Inr []"
  shows "replacement_text expand kw n None [] = Inr (py_str (SafeDict_getitem kw n))"
  using assms
  by (simp add: replacement_text_def get_field_plain convert_field_def
      Formatter_format_field_empty)

lemma vformat_depth_empty: "vformat_depth (Suc d) kw [] = Inr []"
  by simp

text \<open>A template of literal text and plain placeholders is filled segment by segment.\<close>

lemma format_parsed_segments:
  assumes "expand [] = Inr []"
  shows "list_all plain_segment segs \<Longrightarrow>
         format_parsed expand kw (parser InLiteral (render_template segs)) =
           Inr (expand_template kw segs)"
proof (induction segs)
  case Nil
  show ?case by (simp add: render_template_def expand_template_def)
next
  case (Cons seg segs)
  then have IH: "format_parsed expand kw (parser InLiteral (render_template segs)) =
      Inr (expand_template kw segs)"
    by simp
  show ?case
  proof (cases seg)
    case (Lit s)
    have "render_template (seg # segs) = escape_braces s @ render_template segs"
      using Lit by (simp add: render_template_def)
    then show ?thesis
      using IH Lit by (simp add: parser_escape_braces format_parsed_literal expand_template_def)
  next
    case (Field n)
    then have p: "plain_name n" using Cons.prems by simp
    have "render_template (seg # segs) = CHR ''{'' # n @ CHR ''}'' # render_template segs"
      using Field by (simp add: render_template_def)
    moreover have "replacement_text expand kw n None [] = Inr (py_str (SafeDict_getitem kw n))"
      by (rule replacement_text_plain[OF p]) (rule assms)
    ultimately show ?thesis
      using IH Field
      by (simp add: parser_field[OF p] format_parsed_Replacement expand_template_def)
  qed
qed

lemma vformat_segments:
  "list_all plain_segment segs \<Longrightarrow>
   vformat kw (render_template segs) = Inr (expand_template kw segs)"
proof -
  assume a: "list_all plain_segment segs"
  have "vformat_depth 1 kw [] = Inr []" by simp
  from format_parsed_segments[of "vformat_depth 1 kw", OF this a]
  show ?thesis by (simp add: vformat_def numeral_2_eq_2)
qed

lemma fill_template_segments:
  "list_all plain_segment segs \<Longrightarrow>
   fill_template (render_template segs) fv = Inr (expand_template (safe_dict fv) segs)"
  by (simp add: fill_template_def vformat_segments)

lemma expand_template_append:
  "expand_template kw (pre @ seg # post) =
     expand_template kw pre @ expand_segment kw seg @ expand_template kw post"
  by (simp add: expand_template_def)

text \<open>
  C1, the code at the failing inputs: for every template of literal text and plain
  placeholders and every field mapping, a placeholder whose name has no entry at all in
  the mapping does not make \<^verbatim>\<open>fill_template\<close> raise; \<^verbatim>\<open>_SafeDict.__missing__\<close> answers
  the lookup, so the result is the filled text with the sentinel \<^verbatim>\<open>[NOT AVAILABLE]\<close> in
  the place of the placeholder.
\<close>

theorem fill_template_missing_placeholder:
  assumes "list_all plain_segment (pre @ Field n # post)"
    and "field_values n = None"
  shows "fill_template (render_template (pre @ Field n # post)) field_values =
           Inr (expand_template (safe_dict field_values) pre @ ''[NOT AVAILABLE]'' @
                expand_template (safe_dict field_values) post)"
  using assms
  by (simp add: fill_template_segments expand_template_append SafeDict_getitem_def
      SafeDict_missing_def safe_dict_def)

theorem fill_template_missing_placeholder_witness:
  "list_all plain_segment ([Lit ''Dose: ''] @ Field ''dose'' # [Lit ''.'']) \<and>
   [''age'' \<mapsto> PInt 74] ''dose'' = None \<and>
   fill_template ''Dose: {dose}.'' [''age'' \<mapsto> PInt 74] = Inr ''Dose: [NOT AVAILABLE].''"
  using fill_template_missing_placeholder
          [of "[Lit ''Dose: '']" "''dose''" "[Lit ''.'']" "[''age'' \<mapsto> PInt 74]"]
  by (simp add: plain_name_def char_class_defs render_template_def escape_braces_def
      expand_template_def)




subsection \<open>Template selection\<close>

lemma upper_eq_Y_iff: "upper s = ''Y'' \<longleftrightarrow> s = ''Y'' \<or> s = ''y''"
proof (cases s)
  case Nil
  then show ?thesis by (simp add: upper_def)
next
  case (Cons c cs)
  have "upper_char c = CHR ''Y'' \<longleftrightarrow> c = CHR ''Y'' \<or> c = CHR ''y''"
    by (auto simp: char_class_defs split: if_splits)
  then show ?thesis using Cons by (auto simp: upper_def)
qed

text \<open>A flag reads \<^verbatim>\<open>Y\<close> exactly when the event holds the string \<^verbatim>\<open>Y\<close> or \<^verbatim>\<open>y\<close>;
  a missing key, \<^verbatim>\<open>None\<close> and the empty string all read as the empty flag.\<close>

lemma flag_Y_iff:
  "flag event_data key = Inr ''Y'' \<longleftrightarrow>
     event_data key = Some (PStr ''Y'') \<or> event_data key = Some (PStr ''y'')"
proof (cases "event_data key")
  case None
  then show ?thesis by (simp add: flag_def dict_get_def py_or_def upper_def)
next
  case (Some v)
  show ?thesis
  proof (cases v)
    case PNone
    then show ?thesis using Some by (simp add: flag_def dict_get_def py_or_def upper_def)
  next
    case (PStr s)
    have "flag event_data key = Inr (upper s)"
      using Some PStr by (simp add: flag_def dict_get_def py_or_def upper_def)
    then show ?thesis using Some PStr by (simp add: upper_eq_Y_iff)
  next
    case (PInt i)
    then show ?thesis using Some by (simp add: flag_def dict_get_def py_or_def upper_def)
  next
    case PNaN
    then show ?thesis using Some by (simp add: flag_def dict_get_def py_or_def)
  qed
qed

lemma flag_unknown:
  "event_data key = None \<or> event_data key = Some PNone \<or> event_data key = Some (PStr []) \<Longrightarrow>
   flag event_data key = Inr []"
  by (auto simp: flag_def dict_get_def py_or_def upper_def)

text \<open>
  C2: for every event whose three flags are strings, \<^verbatim>\<open>None\<close> or missing, and every
  configuration that holds the hospitalization, medically-important and non-serious
  templates, \<^verbatim>\<open>select_template\<close> follows the cascade on the upper-cased flags: serious Y
  and hospitalization Y give the hospitalization template; serious Y, hospitalization N
  and medically important Y give the medically-important template; serious Y with
  hospitalization anything but Y (unknown included) gives the medically-important
  template; a serious flag that is not Y (N, unknown or missing alike) gives the
  non-serious template.
\<close>

theorem select_template_cascade:
  assumes "flag event_data ''serious_event'' = Inr serious"
    and "flag event_data ''hospitalization'' = Inr hosp"
    and "flag event_data ''other_medically_important'' = Inr med_imp"
    and "map_of ts ''sae_hospitalization'' = Some t_hosp"
    and "map_of ts ''sae_medically_important'' = Some t_med"
    and "map_of ts ''ae_non_serious'' = Some t_non"
  shows "(serious = ''Y'' \<and> hosp = ''Y'' \<longrightarrow> select_template ts event_data = Inr t_hosp) \<and>
         (serious = ''Y'' \<and> hosp = ''N'' \<and> med_imp = ''Y'' \<longrightarrow>
            select_template ts event_data = Inr t_med) \<and>
         (serious = ''Y'' \<and> hosp \<noteq> ''Y'' \<longrightarrow> select_template ts event_data = Inr t_med) \<and>
         (serious \<noteq> ''Y'' \<longrightarrow> select_template ts event_data = Inr t_non)"
  using assms
  by (simp add: select_template_def priority1_def priority2_def priority3_def priority4_def
      priority5_def)

theorem select_template_cascade_witness:
  "select_template
     [(''sae_hospitalization'', \<lparr>template_id = ''SAE_HOSP_V1'', paragraphs = []\<rparr>),
      (''sae_medically_important'', \<lparr>template_id = ''SAE_MED_IMP_V1'', paragraphs = []\<rparr>),
      (''ae_non_serious'', \<lparr>template_id = ''AE_V1'', paragraphs = []\<rparr>)]
     [''serious_event'' \<mapsto> PStr ''y'', ''hospitalization'' \<mapsto> PNone,
      ''other_medically_important'' \<mapsto> PStr ''N'']
   = Inr \<lparr>template_id = ''SAE_MED_IMP_V1'', paragraphs = []\<rparr>"
  using select_template_cascade
    [of "[''serious_event'' \<mapsto> PStr ''y'', ''hospitalization'' \<mapsto> PNone,
          ''other_medically_important'' \<mapsto> PStr ''N'']"
        "''Y''" "[]" "''N''"
        "[(''sae_hospitalization'', \<lparr>template_id = ''SAE_HOSP_V1'', paragraphs = []\<rparr>),
          (''sae_medically_important'', \<lparr>template_id = ''SAE_MED_IMP_V1'', paragraphs = []\<rparr>),
          (''ae_non_serious'', \<lparr>template_id = ''AE_V1'', paragraphs = []\<rparr>)]"
        "\<lparr>template_id = ''SAE_HOSP_V1'', paragraphs = []\<rparr>"
        "\<lparr>template_id = ''SAE_MED_IMP_V1'', paragraphs = []\<rparr>"
        "\<lparr>template_id = ''AE_V1'', paragraphs = []\<rparr>"]
  by (simp add: flag_def dict_get_def py_or_def upper_def char_class_defs)

text \<open>
  C3, the code at the failing input: the event is serious (\<^verbatim>\<open>serious_event = "Y"\<close>) and
  the configuration holds none of the SAE templates, only the non-serious one. Priorities
  1 to 4 find no template and priority 5, which does not look at the serious flag,
  returns the non-serious template; no configuration error is raised.
\<close>

theorem select_template_serious_without_sae_templates:
  "select_template [(''ae_non_serious'', t_non)] [''serious_event'' \<mapsto> PStr ''Y''] = Inr t_non"
  by (simp add: select_template_def priority1_def priority2_def priority3_def priority4_def
      priority5_def flag_def dict_get_def py_or_def upper_def char_class_defs)

subsection \<open>Value mapping\<close>

text \<open>
  C9, as the code has it. For every field configuration with a non-empty value map and
  every raw value other than \<^verbatim>\<open>None\<close>: a truthy entry under the upper-cased string form
  of the raw value is the result; otherwise the lookup of the raw value itself decides:
  when it yields \<^verbatim>\<open>None\<close> the raw value is returned unchanged, and when it yields an
  entry, that entry is the result, falsy or not. So a value is rewritten to a falsy
  value such as the empty string only through an entry stored under the raw value itself
  (which is the upper-cased key when the raw value is already upper case).
\<close>

theorem apply_value_mapping_lookup_order:
  assumes "value_map config = Some vm" and "vm \<noteq> []" and "val \<noteq> PNone"
  shows "(truthy (value_map_get vm (PStr (upper (py_str val)))) \<longrightarrow>
            apply_value_mapping field_name val config =
              value_map_get vm (PStr (upper (py_str val)))) \<and>
         (\<not> truthy (value_map_get vm (PStr (upper (py_str val)))) \<and>
            value_map_get vm val = PNone \<longrightarrow>
            apply_value_mapping field_name val config = val) \<and>
         (\<not> truthy (value_map_get vm (PStr (upper (py_str val)))) \<and>
            value_map_get vm val \<noteq> PNone \<longrightarrow>
            apply_value_mapping field_name val config = value_map_get vm val) \<and>
         (value_map_get vm val = PNone \<longrightarrow>
            apply_value_mapping field_name val config = val \<or>
            truthy (apply_value_mapping field_name val config))"
  using assms by (auto simp: apply_value_mapping_def py_or_def Let_def)

theorem apply_value_mapping_lookup_order_witness:
  "apply_value_mapping ''sex'' (PStr ''m'')
     \<lparr>value_map = Some [(''M'', PStr []), (''F'', PStr ''female'')], format = None\<rparr> = PStr ''m'' \<and>
   apply_value_mapping ''sex'' (PStr ''f'')
     \<lparr>value_map = Some [(''M'', PStr []), (''F'', PStr ''female'')], format = None\<rparr> = PStr ''female''"
  using apply_value_mapping_lookup_order
          [of "\<lparr>value_map = Some [(''M'', PStr []), (''F'', PStr ''female'')], format = None\<rparr>"
              "[(''M'', PStr []), (''F'', PStr ''female'')]" "PStr ''m''" "''sex''"]
        apply_value_mapping_lookup_order
          [of "\<lparr>value_map = Some [(''M'', PStr []), (''F'', PStr ''female'')], format = None\<rparr>"
              "[(''M'', PStr []), (''F'', PStr ''female'')]" "PStr ''f''" "''sex''"]
  by (simp add: dict_get_def upper_def char_class_defs)

text \<open>
  C9, counterexample: the raw value \<^verbatim>\<open>"M"\<close> is its own upper-cased form and the value map
  sends \<^verbatim>\<open>"M"\<close> to the empty string. The first lookup is falsy, the second lookup finds
  the same entry, which is not \<^verbatim>\<open>None\<close>, and the empty string is returned: the value was
  rewritten to the empty string through its case-normalized key.
\<close>

theorem apply_value_mapping_empty_string_counterexample:
  "apply_value_mapping ''sex'' (PStr ''M'')
     \<lparr>value_map = Some [(''M'', PStr [])], format = None\<rparr> = PStr []"
  by (simp add: apply_value_mapping_def py_or_def dict_get_def upper_def char_class_defs)

subsection \<open>Paragraph variations\<close>

text \<open>
  C10: for every paragraph configuration with a non-empty \<^verbatim>\<open>variations\<close> dictionary and
  every field mapping: when \<^verbatim>\<open>end_date\<close> is truthy the \<^verbatim>\<open>with_end_date\<close> text, and when
  it is not (missing, \<^verbatim>\<open>None\<close> or the empty string among others) the
  \<^verbatim>\<open>without_end_date\<close> text, is appended to the base template after one space, and the
  result is filled and normalized; when the chosen key is absent (or its text empty) the
  base template alone is filled and normalized.
\<close>

theorem generate_paragraph_variation:
  assumes "variations pc = Some vs" and "vs \<noteq> []"
  shows "(truthy (dict_get fv ''end_date'') \<and> map_of vs ''with_end_date'' = Some v \<and> v \<noteq> [] \<longrightarrow>
            generate_paragraph pc fv =
              map_sum id apply_business_rules (fill_template (template pc @ '' '' @ v) fv)) \<and>
         (\<not> truthy (dict_get fv ''end_date'') \<and> map_of vs ''without_end_date'' = Some v \<and> v \<noteq> [] \<longrightarrow>
            generate_paragraph pc fv =
              map_sum id apply_business_rules (fill_template (template pc @ '' '' @ v) fv)) \<and>
         (truthy (dict_get fv ''end_date'') \<and> map_of vs ''with_end_date'' = None \<longrightarrow>
            generate_paragraph pc fv =
              map_sum id apply_business_rules (fill_template (template pc) fv)) \<and>
         (\<not> truthy (dict_get fv ''end_date'') \<and> map_of vs ''without_end_date'' = None \<longrightarrow>
            generate_paragraph pc fv =
              map_sum id apply_business_rules (fill_template (template pc) fv)) \<and>
         (fv ''end_date'' = None \<or> fv ''end_date'' = Some PNone \<or> fv ''end_date'' = Some (PStr []) \<longrightarrow>
            \<not> truthy (dict_get fv ''end_date''))"
  using assms by (auto simp: generate_paragraph_def Let_def dict_get_def)

theorem generate_paragraph_variation_witness:
  "generate_paragraph
     \<lparr>number = 4, template = ''The event began.'',
      variations = Some [(''with_end_date'', ''It ended on {end_date}.''),
                         (''without_end_date'', ''It is ongoing.'')]\<rparr>
     [''end_date'' \<mapsto> PStr []]
   = map_sum id apply_business_rules
       (fill_template ''The event began. It is ongoing.'' [''end_date'' \<mapsto> PStr []])"
  using generate_paragraph_variation
          [of "\<lparr>number = 4, template = ''The event began.'',
               variations = Some [(''with_end_date'', ''It ended on {end_date}.''),
                                  (''without_end_date'', ''It is ongoing.'')]\<rparr>"
              "[(''with_end_date'', ''It ended on {end_date}.''),
                (''without_end_date'', ''It is ongoing.'')]"
              "[''end_date'' \<mapsto> PStr []]" "''It is ongoing.''"]
  by (simp add: dict_get_def)

subsection \<open>Enhancement fallback\<close>

text \<open>
  C4, as the code has it. The claim as stated fails (see the counterexample): the call of
  the enhancer in \<^verbatim>\<open>generate_narrative\<close> is not guarded; the fallback is inside
  \<^verbatim>\<open>OpenAINarrativeEnhancer.enhance\<close>. What holds, for every configuration, field mapping
  and event for which the deterministic pipeline assembles a baseline text: with an
  \<^verbatim>\<open>OpenAINarrativeEnhancer\<close> whose client call raises an exception that derives from
  \<^verbatim>\<open>Exception\<close>, or returns a response without choices (IndexError inside the same
  \<^verbatim>\<open>try\<close>), \<^verbatim>\<open>generate_narrative\<close> returns exactly the baseline text that it returns
  without an enhancer, and no error reaches the caller; when the first message content is
  \<^verbatim>\<open>None\<close> or empty it returns the baseline text stripped of leading and trailing white
  space. An exception of the client that does not derive from \<^verbatim>\<open>Exception\<close>, and any
  exception raised by the \<^verbatim>\<open>enhance\<close> of another enhancer object, reaches the caller.
\<close>

theorem generate_narrative_enhancer_failure:
  assumes "select_template ts event_data = Inr t"
    and "generate_narrative ts None field_values event_data = Inr baseline_text"
  shows "(cl field_values (template_id t) baseline_text = ClientRaises DerivesFromException name \<or>
          cl field_values (template_id t) baseline_text = ClientResponse [] \<longrightarrow>
            generate_narrative ts (Some (enhance cl)) field_values event_data = Inr baseline_text) \<and>
         (cl field_values (template_id t) baseline_text = ClientResponse (None # choices) \<or>
          cl field_values (template_id t) baseline_text = ClientResponse (Some [] # choices) \<longrightarrow>
            generate_narrative ts (Some (enhance cl)) field_values event_data =
              Inr (strip baseline_text)) \<and>
         (cl field_values (template_id t) baseline_text =
            ClientRaises DerivesFromBaseExceptionOnly name \<longrightarrow>
            generate_narrative ts (Some (enhance cl)) field_values event_data = Inl (Raised name)) \<and>
         (en field_values (template_id t) baseline_text = Inl e \<longrightarrow>
            generate_narrative ts (Some en) field_values event_data = Inl e)"
  using assms
  by (auto simp: generate_narrative_def enhance_def Let_def split: sum.splits)

theorem generate_narrative_enhancer_failure_witness:
  "generate_narrative
     [(''ae_non_serious'',
       \<lparr>template_id = ''AE_V1'',
        paragraphs = [\<lparr>number = 2, template = ''Age {age}. '', variations = None\<rparr>,
                      \<lparr>number = 1, template = ''Subject {id}.'', variations = None\<rparr>]\<rparr>)]
     (Some (enhance timed_out_client)) [''age'' \<mapsto> PInt 74, ''id'' \<mapsto> PStr ''S-001''] Map.empty
   = Inr (''Subject S-001.'' @ [CHR 0x0A, CHR 0x0A] @ ''Age 74. '') \<and>
   generate_narrative
     [(''ae_non_serious'',
       \<lparr>template_id = ''AE_V1'',
        paragraphs = [\<lparr>number = 2, template = ''Age {age}. '', variations = None\<rparr>,
                      \<lparr>number = 1, template = ''Subject {id}.'', variations = None\<rparr>]\<rparr>)]
     (Some (enhance (\<lambda>fv tid text. ClientResponse [None])))
     [''age'' \<mapsto> PInt 74, ''id'' \<mapsto> PStr ''S-001''] Map.empty
   = Inr (''Subject S-001.'' @ [CHR 0x0A, CHR 0x0A] @ ''Age 74.'') \<and>
   generate_narrative
     [(''ae_non_serious'',
       \<lparr>template_id = ''AE_V1'',
        paragraphs = [\<lparr>number = 2, template = ''Age {age}. '', variations = None\<rparr>,
                      \<lparr>number = 1, template = ''Subject {id}.'', variations = None\<rparr>]\<rparr>)]
     (Some (enhance interrupted_client))
     [''age'' \<mapsto> PInt 74, ''id'' \<mapsto> PStr ''S-001''] Map.empty
   = Inl (Raised ''KeyboardInterrupt'') \<and>
   generate_narrative
     [(''ae_non_serious'',
       \<lparr>template_id = ''AE_V1'',
        paragraphs = [\<lparr>number = 2, template = ''Age {age}. '', variations = None\<rparr>,
                      \<lparr>number = 1, template = ''Subject {id}.'', variations = None\<rparr>]\<rparr>)]
     (Some raising_enhancer)
     [''age'' \<mapsto> PInt 74, ''id'' \<mapsto> PStr ''S-001''] Map.empty
   = Inl (Raised ''RuntimeError'')"
proof -
  let ?t = "\<lparr>template_id = ''AE_V1'',
        paragraphs = [\<lparr>number = 2, template = ''Age {age}. '', variations = None\<rparr>,
                      \<lparr>number = 1, template = ''Subject {id}.'', variations = None\<rparr>]\<rparr>"
  let ?ts = "[(''ae_non_serious'', ?t)]"
  let ?fv = "[''age'' \<mapsto> PInt 74, ''id'' \<mapsto> PStr ''S-001'']"
  let ?b = "''Subject S-001.'' @ [CHR 0x0A, CHR 0x0A] @ ''Age 74. ''"
  have sel: "select_template ?ts Map.empty = Inr ?t"
    by code_simp
  have base: "generate_narrative ?ts None ?fv Map.empty = Inr ?b"
    by code_simp
  have s: "strip ?b = ''Subject S-001.'' @ [CHR 0x0A, CHR 0x0A] @ ''Age 74.''"
    by code_simp
  note th = generate_narrative_enhancer_failure[OF sel base]
  have 1: "generate_narrative ?ts (Some (enhance timed_out_client)) ?fv Map.empty = Inr ?b"
    using th[of timed_out_client "''APITimeoutError''"] by (simp add: timed_out_client_def)
  have 2: "generate_narrative ?ts (Some (enhance (\<lambda>fv tid text. ClientResponse [None]))) ?fv
             Map.empty = Inr (strip ?b)"
    using th[of "\<lambda>fv tid text. ClientResponse [None]" _ "[]"] by simp
  have 3: "generate_narrative ?ts (Some (enhance interrupted_client)) ?fv Map.empty =
             Inl (Raised ''KeyboardInterrupt'')"
    using th[of interrupted_client "''KeyboardInterrupt''"] by (simp add: interrupted_client_def)
  have 4: "generate_narrative ?ts (Some raising_enhancer) ?fv Map.empty =
             Inl (Raised ''RuntimeError'')"
    using th[of _ _ _ raising_enhancer "Raised ''RuntimeError''"]
    by (simp add: raising_enhancer_def)
  show ?thesis using 1 2 3 4 unfolding s by blast
qed

text \<open>
  C4, counterexample: the baseline text is assembled, the \<^verbatim>\<open>enhance\<close> of the enhancer
  raises RuntimeError, and \<^verbatim>\<open>generate_narrative\<close> raises it: the baseline text is not
  returned. The same holds for an \<^verbatim>\<open>OpenAINarrativeEnhancer\<close> whose client call is
  interrupted from the keyboard.
\<close>

theorem generate_narrative_enhancer_raises_counterexample:
  "generate_narrative
     [(''ae_non_serious'',
       \<lparr>template_id = ''AE_V1'',
        paragraphs = [\<lparr>number = 1, template = ''Subject {id}.'', variations = None\<rparr>]\<rparr>)]
     None [''id'' \<mapsto> PStr ''S-001''] Map.empty = Inr ''Subject S-001.'' \<and>
   generate_narrative
     [(''ae_non_serious'',
       \<lparr>template_id = ''AE_V1'',
        paragraphs = [\<lparr>number = 1, template = ''Subject {id}.'', variations = None\<rparr>]\<rparr>)]
     (Some raising_enhancer) [''id'' \<mapsto> PStr ''S-001''] Map.empty = Inl (Raised ''RuntimeError'') \<and>
   generate_narrative
     [(''ae_non_serious'',
       \<lparr>template_id = ''AE_V1'',
        paragraphs = [\<lparr>number = 1, template = ''Subject {id}.'', variations = None\<rparr>]\<rparr>)]
     (Some (enhance interrupted_client)) [''id'' \<mapsto> PStr ''S-001''] Map.empty =
       Inl (Raised ''KeyboardInterrupt'')"
  by code_simp

subsection \<open>Literal None and nan in the narrative\<close>

text \<open>
  C7, the code at the failing inputs: a field whose value is the string \<^verbatim>\<open>"None"\<close>, or
  the floating-point NaN, is not among the values \<^verbatim>\<open>fill_template\<close> replaces by the
  marker, so the generated narrative contains the literal \<^verbatim>\<open>None\<close>, or \<^verbatim>\<open>nan\<close>.
\<close>

theorem generate_narrative_literal_None_nan:
  "generate_narrative
     [(''ae_non_serious'',
       \<lparr>template_id = ''AE_V1'',
        paragraphs = [\<lparr>number = 1, template = ''Outcome: {outcome}.'', variations = None\<rparr>]\<rparr>)]
     None [''outcome'' \<mapsto> PStr ''None''] Map.empty = Inr ''Outcome: None.'' \<and>
   generate_narrative
     [(''ae_non_serious'',
       \<lparr>template_id = ''AE_V1'',
        paragraphs = [\<lparr>number = 1, template = ''Age: {age}.'', variations = None\<rparr>]\<rparr>)]
     None [''age'' \<mapsto> PNaN] Map.empty = Inr ''Age: nan.''"
  by code_simp

subsection \<open>Dates under rule 2\<close>

lemma digits_nth: "k < 10 \<Longrightarrow> is_digit (digits ! k)"
proof -
  assume "k < 10"
  then have "k = 0 \<or> k = 1 \<or> k = 2 \<or> k = 3 \<or> k = 4 \<or> k = 5 \<or> k = 6 \<or> k = 7 \<or> k = 8 \<or> k = 9"
    by arith
  then show ?thesis by (auto simp: is_digit_def digits_def)
qed

lemma dec_nat_digits: "list_all is_digit (dec_nat n)"
proof (induction n rule: dec_nat.induct)
  case (1 n)
  show ?case
  proof (cases "n < 10")
    case True
    then show ?thesis by (subst dec_nat.simps) (simp add: digits_nth)
  next
    case False
    then show ?thesis using "1.IH" by (subst dec_nat.simps) (simp add: digits_nth)
  qed
qed

lemma dec_nat_small: "n < 10 \<Longrightarrow> dec_nat n = [digits ! n]"
  by (subst dec_nat.simps) simp

lemma dec_nat_two: "10 \<le> n \<Longrightarrow> n < 100 \<Longrightarrow> dec_nat n = [digits ! (n div 10), digits ! (n mod 10)]"
  by (subst dec_nat.simps) (simp add: dec_nat_small)

lemma is_digit_word: "is_digit c \<Longrightarrow> is_word c"
  by (simp add: is_word_def)

lemma hyphen_not_digit: "\<not> is_digit CHR ''-''"
  by (simp add: is_digit_def digits_def)

lemma iso_shaped_iff:
  "iso_shaped t \<longleftrightarrow>
     (\<exists>a b c d e f g h. t = [a, b, c, d, CHR ''-'', e, f, CHR ''-'', g, h] \<and>
        is_digit a \<and> is_digit b \<and> is_digit c \<and> is_digit d \<and>
        is_digit e \<and> is_digit f \<and> is_digit g \<and> is_digit h)"
  by (auto simp: iso_shaped_def iso_pattern_def list_all2_Cons1)

lemma iso_shaped_take_iff:
  "iso_shaped (take 10 t) \<longleftrightarrow>
     (\<exists>a b c d e f g h rest. t = a # b # c # d # CHR ''-'' # e # f # CHR ''-'' # g # h # rest \<and>
        is_digit a \<and> is_digit b \<and> is_digit c \<and> is_digit d \<and>
        is_digit e \<and> is_digit f \<and> is_digit g \<and> is_digit h)"
proof
  assume "iso_shaped (take 10 t)"
  then obtain a b c d e f g h where
    t: "take 10 t = [a, b, c, d, CHR ''-'', e, f, CHR ''-'', g, h]" and
    d: "is_digit a" "is_digit b" "is_digit c" "is_digit d"
       "is_digit e" "is_digit f" "is_digit g" "is_digit h"
    unfolding iso_shaped_iff by blast
  have "t = take 10 t @ drop 10 t" by simp
  then have "t = a # b # c # d # CHR ''-'' # e # f # CHR ''-'' # g # h # drop 10 t"
    using t by simp
  then show "\<exists>a b c d e f g h rest. t = a # b # c # d # CHR ''-'' # e # f # CHR ''-'' # g # h # rest \<and>
        is_digit a \<and> is_digit b \<and> is_digit c \<and> is_digit d \<and>
        is_digit e \<and> is_digit f \<and> is_digit g \<and> is_digit h"
    using d by blast
next
  assume "\<exists>a b c d e f g h rest. t = a # b # c # d # CHR ''-'' # e # f # CHR ''-'' # g # h # rest \<and>
        is_digit a \<and> is_digit b \<and> is_digit c \<and> is_digit d \<and>
        is_digit e \<and> is_digit f \<and> is_digit g \<and> is_digit h"
  then show "iso_shaped (take 10 t)"
    by (auto simp: iso_shaped_iff)
qed

text \<open>A text that no suffix of which starts a match is left as it is.\<close>

lemma re_sub_no_match:
  "(\<And>n w'. m w' (drop n s) = None) \<Longrightarrow> re_sub m w s = s"
proof (induction s arbitrary: w)
  case Nil
  show ?case by simp
next
  case (Cons c cs)
  have "m w (c # cs) = None" using Cons.prems[of w 0] by simp
  moreover have "re_sub m (is_word c) cs = cs"
  proof (rule Cons.IH)
    fix n w'
    show "m w' (drop n cs) = None" using Cons.prems[of w' "Suc n"] by simp
  qed
  ultimately show ?case by simp
qed

lemma digits_not_iso_shaped:
  "list_all is_digit t \<Longrightarrow> \<not> iso_shaped (take 10 t)"
  by (auto simp: iso_shaped_take_iff hyphen_not_digit)

lemma month_name_shape:
  assumes "1 \<le> m" "m \<le> 12"
  shows "\<exists>a b c. month_names ! (m - 1) = [a, b, c] \<and> \<not> is_digit a \<and> \<not> is_digit b \<and>
           \<not> is_digit c \<and> a \<noteq> CHR ''-'' \<and> b \<noteq> CHR ''-'' \<and> c \<noteq> CHR ''-''"
proof -
  from assms have "m = 1 \<or> m = 2 \<or> m = 3 \<or> m = 4 \<or> m = 5 \<or> m = 6 \<or> m = 7 \<or> m = 8 \<or>
      m = 9 \<or> m = 10 \<or> m = 11 \<or> m = 12"
    by arith
  then show ?thesis
    by (elim disjE) (simp_all add: month_names_def is_digit_def digits_def)
qed

lemma day_shape:
  assumes "1 \<le> dd" "dd \<le> 31"
  shows "\<exists>a b. (if dd < 10 then CHR ''0'' # dec_nat dd else dec_nat dd) = [a, b] \<and>
           is_digit a \<and> is_digit b"
proof (cases "dd < 10")
  case True
  then show ?thesis by (simp add: dec_nat_small digits_nth) (simp add: is_digit_def digits_def)
next
  case False
  then have "dec_nat dd = [digits ! (dd div 10), digits ! (dd mod 10)]"
    using assms by (simp add: dec_nat_two)
  moreover have "dd div 10 < 10" using assms by simp
  ultimately show ?thesis using False by (simp add: digits_nth)
qed

lemma days_in_month_le: "days_in_month y m \<le> 31"
  by (simp add: days_in_month_def)

text \<open>The formatter's output: two digits, a month name, the digits of the year.\<close>

lemma strftime_shape:
  assumes "valid_date d"
  shows "\<exists>a b m1 m2 m3 ys. strftime d = a # b # CHR ''-'' # m1 # m2 # m3 # CHR ''-'' # ys \<and>
           is_digit a \<and> is_digit b \<and> \<not> is_digit m1 \<and> \<not> is_digit m2 \<and> \<not> is_digit m3 \<and>
           m1 \<noteq> CHR ''-'' \<and> m2 \<noteq> CHR ''-'' \<and> m3 \<noteq> CHR ''-'' \<and> list_all is_digit ys"
proof -
  obtain y m dd where d: "d = (y, m, dd)" by (cases d) auto
  with assms have v: "1 \<le> m" "m \<le> 12" "1 \<le> dd" "dd \<le> 31"
    using days_in_month_le[of y m] by (auto simp: valid_date_def)
  from day_shape[OF v(3,4)] obtain a b where
    ab: "(if dd < 10 then CHR ''0'' # dec_nat dd else dec_nat dd) = [a, b]" "is_digit a" "is_digit b"
    by blast
  from month_name_shape[OF v(1,2)] obtain m1 m2 m3 where
    mm: "month_names ! (m - 1) = [m1, m2, m3]" "\<not> is_digit m1" "\<not> is_digit m2" "\<not> is_digit m3"
        "m1 \<noteq> CHR ''-''" "m2 \<noteq> CHR ''-''" "m3 \<noteq> CHR ''-''"
    by blast
  have "strftime d = a # b # CHR ''-'' # m1 # m2 # m3 # CHR ''-'' # dec_nat y"
    using ab(1) mm(1) by (simp add: strftime_def d)
  then show ?thesis using ab mm dec_nat_digits[of y] by blast
qed

lemma formatted_date_no_match:
  assumes "is_digit a" "is_digit b" "\<not> is_digit m1" "\<not> is_digit m2" "\<not> is_digit m3"
    "m1 \<noteq> CHR ''-''" "m2 \<noteq> CHR ''-''" "m3 \<noteq> CHR ''-''" "list_all is_digit ys"
  shows "\<not> iso_shaped (take 10 (drop n (a # b # CHR ''-'' # m1 # m2 # m3 # CHR ''-'' # ys)))"
proof -
  have "7 \<le> n \<or> n = 6 \<or> n = 5 \<or> n = 4 \<or> n = 3 \<or> n = 2 \<or> n = 1 \<or> n = 0" by arith
  then show ?thesis
  proof (elim disjE)
    assume "7 \<le> n"
    then obtain k where n: "n = 7 + k" using le_Suc_ex by blast
    have "drop n (a # b # CHR ''-'' # m1 # m2 # m3 # CHR ''-'' # ys) = drop k ys"
      unfolding n by (simp add: numeral_eq_Suc)
    moreover have "list_all is_digit (drop k ys)"
      using assms(9) by (simp add: list_all_iff) (meson in_set_dropD)
    ultimately show ?thesis using digits_not_iso_shaped by simp
  qed (use assms in \<open>auto simp: iso_shaped_iff hyphen_not_digit\<close>)
qed

lemma re_sub_iso_date_strftime:
  assumes "valid_date d"
  shows "re_sub iso_date w (strftime d) = strftime d"
proof -
  from strftime_shape[OF assms] obtain a b m1 m2 m3 ys where
    s: "strftime d = a # b # CHR ''-'' # m1 # m2 # m3 # CHR ''-'' # ys" and
    p: "is_digit a" "is_digit b" "\<not> is_digit m1" "\<not> is_digit m2" "\<not> is_digit m3"
       "m1 \<noteq> CHR ''-''" "m2 \<noteq> CHR ''-''" "m3 \<noteq> CHR ''-''" "list_all is_digit ys"
    by blast
  show ?thesis
  proof (rule re_sub_no_match)
    fix n w'
    show "iso_date w' (drop n (strftime d)) = None"
      unfolding s using formatted_date_no_match[OF p, of n] by (simp add: iso_date_def)
  qed
qed

text \<open>Text that ends in a non-word character and is followed by an ISO-shaped token: a
  match of rule 2 starts in it exactly when it starts in the text alone.\<close>

lemma iso_date_short_prefix:
  assumes raw: "iso_shaped raw" and ne: "pre \<noteq> []" and lw: "\<not> is_word (last pre)"
    and len: "length pre < 10"
  shows "\<not> (iso_shaped (take 10 (pre @ raw @ post)) \<and>
            word_boundary (is_word (last (take 10 (pre @ raw @ post))))
              (drop 10 (pre @ raw @ post)))"
proof
  assume a: "iso_shaped (take 10 (pre @ raw @ post)) \<and>
            word_boundary (is_word (last (take 10 (pre @ raw @ post))))
              (drop 10 (pre @ raw @ post))"
  from raw obtain r0 r1 r2 r3 r5 r6 r8 r9 where
    r: "raw = [r0, r1, r2, r3, CHR ''-'', r5, r6, CHR ''-'', r8, r9]" and
    rd: "is_digit r0" "is_digit r1" "is_digit r2" "is_digit r3"
    unfolding iso_shaped_iff by blast
  from a obtain a0 a1 a2 a3 a5 a6 a8 a9 rest where
    s: "pre @ raw @ post = a0 # a1 # a2 # a3 # CHR ''-'' # a5 # a6 # CHR ''-'' # a8 # a9 # rest" and
    ad: "is_digit a0" "is_digit a1" "is_digit a2" "is_digit a3"
        "is_digit a5" "is_digit a6" "is_digit a8" "is_digit a9"
    unfolding iso_shaped_take_iff by blast
  have wb: "word_boundary (is_word a9) rest"
    using a s by simp
  from len have "length pre = 0 \<or> length pre = 1 \<or> length pre = 2 \<or> length pre = 3 \<or>
      length pre = 4 \<or> length pre = 5 \<or> length pre = 6 \<or> length pre = 7 \<or>
      length pre = 8 \<or> length pre = 9"
    by arith
  then show False
  proof (elim disjE)
    assume "length pre = 5"
    then obtain p0 p1 p2 p3 p4 where "pre = [p0, p1, p2, p3, p4]"
      by (auto simp: length_Suc_conv numeral_eq_Suc)
    then show False using s r rd hyphen_not_digit by auto
  next
    assume "length pre = 8"
    then obtain p0 p1 p2 p3 p4 p5 p6 p7 where "pre = [p0, p1, p2, p3, p4, p5, p6, p7]"
      by (auto simp: length_Suc_conv numeral_eq_Suc)
    then have "rest = r2 # r3 # CHR ''-'' # r5 # r6 # CHR ''-'' # r8 # r9 # post" "a9 = r1"
      using s r by auto
    then show False using wb rd by (simp add: word_boundary_def is_digit_word)
  qed (use ne lw s ad in \<open>auto simp: length_Suc_conv numeral_eq_Suc is_digit_word\<close>)
qed

lemma iso_date_None_iff:
  "iso_date w s = None \<longleftrightarrow>
     \<not> (word_boundary w s \<and> iso_shaped (take 10 s) \<and>
        word_boundary (is_word (last (take 10 s))) (drop 10 s))"
  by (simp add: iso_date_def)

lemma iso_date_prefix:
  assumes raw: "iso_shaped raw" and ne: "pre \<noteq> []" and lw: "\<not> is_word (last pre)"
  shows "iso_date w (pre @ raw @ post) = iso_date w pre"
proof -
  have hd: "word_boundary w (pre @ raw @ post) = word_boundary w pre"
    using ne by (simp add: word_boundary_def)
  consider "length pre < 10" | "length pre = 10" | "10 < length pre" by arith
  then show ?thesis
  proof cases
    case 1
    then have "\<not> iso_shaped (take 10 pre)" by (auto simp: iso_shaped_iff)
    then have "iso_date w pre = None" unfolding iso_date_None_iff by blast
    moreover have "iso_date w (pre @ raw @ post) = None"
      unfolding iso_date_None_iff
      using iso_date_short_prefix[OF raw ne lw 1, of post] by blast
    ultimately show ?thesis by simp
  next
    case 2
    then have t: "take 10 pre = pre" "take 10 (pre @ raw @ post) = pre" by simp_all
    have "\<not> iso_shaped pre"
    proof
      assume "iso_shaped pre"
      then have "is_digit (last pre)" by (auto simp: iso_shaped_iff)
      then show False using lw is_digit_word by blast
    qed
    then have "iso_date w pre = None" "iso_date w (pre @ raw @ post) = None"
      using t by (simp_all add: iso_date_None_iff del: take_append drop_append)
    then show ?thesis by simp
  next
    case 3
    then have t: "take 10 (pre @ raw @ post) = take 10 pre" by simp
    have d: "drop 10 (pre @ raw @ post) = drop 10 pre @ raw @ post" using 3 by simp
    have "drop 10 pre \<noteq> []" using 3 by simp
    then have "word_boundary b (drop 10 (pre @ raw @ post)) = word_boundary b (drop 10 pre)" for b
      unfolding d by (simp add: word_boundary_def)
    then show ?thesis using hd t by (simp add: iso_date_def del: take_append drop_append)
  qed
qed

lemma iso_date_at_token:
  assumes raw: "iso_shaped raw" and post: "post = [] \<or> \<not> is_word (hd post)"
  shows "iso_date False (raw @ post) = Some (10, date_repl raw)"
proof -
  from raw obtain r0 r1 r2 r3 r5 r6 r8 r9 where
    r: "raw = [r0, r1, r2, r3, CHR ''-'', r5, r6, CHR ''-'', r8, r9]" and
    rd: "is_digit r0" "is_digit r9"
    unfolding iso_shaped_iff by blast
  have "take 10 (raw @ post) = raw" "drop 10 (raw @ post) = post" using r by simp_all
  moreover have "word_boundary False (raw @ post)"
    using r rd by (simp add: word_boundary_def is_digit_word)
  moreover have "word_boundary (is_word (last raw)) post"
    using r rd post by (auto simp: word_boundary_def is_digit_word)
  ultimately show ?thesis using raw by (simp add: iso_date_def)
qed

lemma iso_date_Some:
  assumes "iso_date w s = Some (n, r)"
  shows "n = 10 \<and> r = date_repl (take 10 s) \<and> 10 \<le> length s \<and> is_digit (last (take 10 s))"
proof -
  from assms have n: "n = 10" "r = date_repl (take 10 s)" and sh: "iso_shaped (take 10 s)"
    by (auto simp: iso_date_def split: if_splits)
  from sh obtain a b c d e f g h where
    t: "take 10 s = [a, b, c, d, CHR ''-'', e, f, CHR ''-'', g, h]" and h: "is_digit h"
    unfolding iso_shaped_iff by blast
  have "length (take 10 s) = 10" unfolding t by simp
  then have "10 \<le> length s" by simp
  moreover have "is_digit (last (take 10 s))" unfolding t using h by simp
  ultimately show ?thesis using n by simp
qed

text \<open>Rule 2 on a text around a token that stands between word boundaries.\<close>

lemma re_sub_iso_date_context:
  assumes raw: "iso_shaped raw" and post: "post = [] \<or> \<not> is_word (hd post)"
  shows "(if pre = [] then \<not> w else \<not> is_word (last pre)) \<Longrightarrow>
         re_sub iso_date w (pre @ raw @ post) =
           re_sub iso_date w pre @ date_repl raw @ re_sub iso_date True post"
proof (induction "length pre" arbitrary: pre w rule: less_induct)
  case less
  show ?case
  proof (cases pre)
    case Nil
    from raw obtain c cs where rc: "raw = c # cs" and l: "last raw = last (take 10 (raw @ post))"
      "is_digit (last raw)" "drop 10 (raw @ post) = post"
      by (auto simp: iso_shaped_iff)
    have "w = False" using less.prems Nil by simp
    then show ?thesis
      using Nil iso_date_at_token[OF raw post] l
      by (simp add: rc is_digit_word del: take_append drop_append)
  next
    case (Cons c cs)
    then have ne: "pre \<noteq> []" and lw: "\<not> is_word (last pre)" using less.prems by auto
    have eq: "iso_date w (c # cs @ raw @ post) = iso_date w (c # cs)"
      using iso_date_prefix[OF raw ne lw, of w post] Cons by simp
    show ?thesis
    proof (cases "iso_date w (c # cs)")
      case None
      have "(if cs = [] then \<not> is_word c else \<not> is_word (last cs))"
        using lw Cons by auto
      then have "re_sub iso_date (is_word c) (cs @ raw @ post) =
          re_sub iso_date (is_word c) cs @ date_repl raw @ re_sub iso_date True post"
        using less.hyps[of cs "is_word c"] Cons by simp
      then show ?thesis using None eq Cons by simp
    next
      case (Some a)
      obtain n r where a: "a = (n, r)" by (cases a) auto
      from iso_date_Some[OF Some[unfolded a]] have
        n: "n = 10" and len: "10 \<le> length (c # cs)" and dg: "is_digit (last (take 10 (c # cs)))"
        by auto
      let ?pre' = "drop 10 (c # cs)"
      have pre'_ne: "?pre' \<noteq> []"
      proof
        assume "?pre' = []"
        then have "take 10 (c # cs) = c # cs" by simp
        then show False using dg lw Cons is_digit_word by auto
      qed
      then have "10 < length (c # cs)" by simp
      then have "last ?pre' = last (c # cs)" by (rule last_drop)
      then have lw': "\<not> is_word (last ?pre')" using lw Cons by simp
      have t: "take 10 (c # cs @ raw @ post) = take 10 (c # cs)"
        using len by simp
      have d: "drop 10 (c # cs @ raw @ post) = ?pre' @ raw @ post"
        using len by simp
      have "length ?pre' < length pre" using Cons by simp
      then have IH: "re_sub iso_date b (?pre' @ raw @ post) =
          re_sub iso_date b ?pre' @ date_repl raw @ re_sub iso_date True post" for b
        using less.hyps[of ?pre' b] pre'_ne lw' by simp
      have "re_sub iso_date w (c # cs @ raw @ post) =
          r @ re_sub iso_date (is_word (last (take 10 (c # cs)))) (?pre' @ raw @ post)"
        using Some eq a n t d by (simp del: take_Cons_numeral drop_Cons_numeral)
      moreover have "re_sub iso_date w (c # cs) =
          r @ re_sub iso_date (is_word (last (take 10 (c # cs)))) ?pre'"
        using Some a n by (simp del: take_Cons_numeral drop_Cons_numeral)
      ultimately show ?thesis using IH Cons by simp
    qed
  qed
qed

lemma strptime_dby_iso_shaped: "iso_shaped raw \<Longrightarrow> strptime_dby raw = None"
proof -
  assume "iso_shaped raw"
  then obtain a b c d rest where r: "raw = a # b # c # d # rest" and
    dg: "is_digit b" "is_digit c"
    by (auto simp: iso_shaped_iff)
  have h: "parse_hyphen (x # xs) = None" if "is_digit x" for x xs
    using that hyphen_not_digit by auto
  have "parse_day raw = None \<or> (\<exists>n. parse_day raw = Some (n, c # d # rest)) \<or>
      (\<exists>n. parse_day raw = Some (n, b # c # d # rest))"
    unfolding r by simp
  then show ?thesis
    using h[OF dg(1)] h[OF dg(2)] by (auto simp: strptime_dby_def)
qed

lemma format_field_iso_shaped:
  "iso_shaped raw \<Longrightarrow> format config = Some ''date'' \<Longrightarrow>
   format_field field_name (PStr raw) config = PStr (date_repl raw)"
  by (simp add: format_field_def date_repl_def strptime_dby_iso_shaped split: option.splits)

subsection \<open>A formatted date inside a text\<close>

lemma iso_shaped_chars: "iso_shaped t \<Longrightarrow> c \<in> set t \<Longrightarrow> is_digit c \<or> c = CHR ''-''"
  by (auto simp: iso_shaped_iff)

lemma iso_shaped_length: "iso_shaped t \<Longrightarrow> length t = 10"
  by (auto simp: iso_shaped_iff)

lemma iso_shaped_last: "iso_shaped t \<Longrightarrow> is_digit (last t)"
  by (auto simp: iso_shaped_iff)

lemma iso_shaped_fifth: "iso_shaped t \<Longrightarrow> t ! 4 = CHR ''-''"
  by (auto simp: iso_shaped_iff)

lemma iso_shaped_digits:
  "iso_shaped t \<Longrightarrow> is_digit (t ! 0) \<and> is_digit (t ! 1) \<and> is_digit (t ! 2)"
  by (auto simp: iso_shaped_iff)

text \<open>Behind a character that is neither a digit nor a hyphen, what follows does not
  change what rule 2 finds before it.\<close>

lemma iso_date_append_closed:
  assumes ne: "p \<noteq> []" and nd: "\<not> is_digit (last p)" and nh: "last p \<noteq> CHR ''-''"
  shows "iso_date v (p @ rest) = iso_date v p"
proof -
  have wb: "word_boundary v (p @ rest) = word_boundary v p"
    using ne by (simp add: word_boundary_def)
  consider "length p < 10" | "length p = 10" | "10 < length p" by arith
  then show ?thesis
  proof cases
    case 1
    have "\<not> iso_shaped (take 10 p)" using 1 iso_shaped_length[of "take 10 p"] by auto
    moreover have "\<not> iso_shaped (take 10 (p @ rest))"
    proof
      assume i: "iso_shaped (take 10 (p @ rest))"
      have "take 10 (p @ rest) = p @ take (10 - length p) rest" using 1 by simp
      then have "last p \<in> set (take 10 (p @ rest))" using ne by simp
      from iso_shaped_chars[OF i this] show False using nd nh by simp
    qed
    ultimately have "iso_date v (p @ rest) = None" "iso_date v p = None"
      unfolding iso_date_None_iff by blast+
    then show ?thesis by simp
  next
    case 2
    then have t: "take 10 (p @ rest) = p" "take 10 p = p" by simp_all
    have "\<not> iso_shaped p" using iso_shaped_last[of p] nd by blast
    then have "iso_date v (p @ rest) = None" "iso_date v p = None"
      unfolding iso_date_None_iff t by blast+
    then show ?thesis by simp
  next
    case 3
    then have t: "take 10 (p @ rest) = take 10 p" by simp
    have d: "drop 10 (p @ rest) = drop 10 p @ rest" using 3 by simp
    have "drop 10 p \<noteq> []" using 3 by simp
    then have "word_boundary u (drop 10 p @ rest) = word_boundary u (drop 10 p)" for u
      by (simp add: word_boundary_def)
    then show ?thesis unfolding iso_date_def t d wb by simp
  qed
qed

text \<open>Where the matches of a first part of a text do not depend on what follows it, the
  substitution can be made in the two parts one after the other.\<close>

lemma re_sub_append_stable:
  "(\<And>n v. n < length pre \<Longrightarrow> m v (drop n pre @ rest) = m v (drop n pre)) \<Longrightarrow>
   (\<And>n v k r. n < length pre \<Longrightarrow> m v (drop n pre) = Some (k, r) \<Longrightarrow>
      0 < k \<and> k \<le> length pre - n) \<Longrightarrow>
   re_sub m w (pre @ rest) =
     re_sub m w pre @ re_sub m (if pre = [] then w else is_word (last pre)) rest"
proof (induction "length pre" arbitrary: pre w rule: less_induct)
  case less
  note A = less.prems(1) and K = less.prems(2)
  show ?case
  proof (cases pre)
    case Nil
    then show ?thesis by simp
  next
    case (Cons c cs)
    have m0: "m w (c # cs @ rest) = m w (c # cs)" using A[of 0 w] Cons by simp
    show ?thesis
    proof (cases "m w (c # cs)")
      case None
      have "re_sub m (is_word c) (cs @ rest) =
          re_sub m (is_word c) cs @
          re_sub m (if cs = [] then is_word c else is_word (last cs)) rest"
      proof (rule less.hyps)
        show "length cs < length pre" using Cons by simp
      next
        fix n v
        assume "n < length cs"
        then show "m v (drop n cs @ rest) = m v (drop n cs)"
          using A[of "Suc n" v] Cons by simp
      next
        fix n v k r
        assume "n < length cs" "m v (drop n cs) = Some (k, r)"
        then show "0 < k \<and> k \<le> length cs - n"
          using K[of "Suc n" v k r] Cons by simp
      qed
      then show ?thesis using Cons None m0 by simp
    next
      case (Some p)
      obtain k r where p: "p = (k, r)" by (cases p) auto
      from K[of 0 w k r] Some p Cons have k: "0 < k" "k \<le> length pre" by simp_all
      have t: "take k (pre @ rest) = take k pre" using k by simp
      have d: "drop k (pre @ rest) = drop k pre @ rest" using k by simp
      have IH: "re_sub m u (drop k pre @ rest) =
          re_sub m u (drop k pre) @
          re_sub m (if drop k pre = [] then u else is_word (last (drop k pre))) rest" for u
      proof (rule less.hyps)
        show "length (drop k pre) < length pre" using k Cons by simp
      next
        fix n v
        assume "n < length (drop k pre)"
        then show "m v (drop n (drop k pre) @ rest) = m v (drop n (drop k pre))"
          using A[of "n + k" v] by (simp add: add.commute)
      next
        fix n v k' r'
        assume "n < length (drop k pre)" "m v (drop n (drop k pre)) = Some (k', r')"
        then show "0 < k' \<and> k' \<le> length (drop k pre) - n"
          using K[of "n + k" v k' r'] by (simp add: add.commute)
      qed
      have l: "(if drop k pre = [] then is_word (last (take k pre))
                else is_word (last (drop k pre))) = is_word (last pre)"
      proof (cases "drop k pre = []")
        case True
        then have "take k pre = pre" by simp
        then show ?thesis using True by simp
      next
        case False
        then have "last (drop k pre) = last pre" by (simp add: last_drop)
        then show ?thesis using False by simp
      qed
      have "re_sub m w (pre @ rest) =
          r @ re_sub m (is_word (last (take k (pre @ rest)))) (drop k (pre @ rest))"
        using Cons Some p m0 k by simp
      then have e1: "re_sub m w (pre @ rest) =
          (r @ re_sub m (is_word (last (take k pre))) (drop k pre)) @
          re_sub m (is_word (last pre)) rest"
        unfolding t d IH l by simp
      have e2: "re_sub m w pre = r @ re_sub m (is_word (last (take k pre))) (drop k pre)"
        using Cons Some p k by simp
      show ?thesis unfolding e1 e2 using Cons by simp
    qed
  qed
qed

text \<open>A first part of a text in which no match starts is copied.\<close>

lemma re_sub_skip:
  "(\<And>n v. n < length skipped \<Longrightarrow> m v (drop n skipped @ rest) = None) \<Longrightarrow>
   re_sub m w (skipped @ rest) =
     skipped @ re_sub m (if skipped = [] then w else is_word (last skipped)) rest"
proof (induction skipped arbitrary: w)
  case Nil
  show ?case by simp
next
  case (Cons c cs)
  have "m w (c # cs @ rest) = None" using Cons.prems[of 0 w] by simp
  moreover have "re_sub m (is_word c) (cs @ rest) =
      cs @ re_sub m (if cs = [] then is_word c else is_word (last cs)) rest"
  proof (rule Cons.IH)
    fix n v
    assume "n < length cs"
    then show "m v (drop n cs @ rest) = None" using Cons.prems[of "Suc n" v] by simp
  qed
  ultimately show ?case by simp
qed

lemma digits_context_not_iso_shaped:
  assumes ne: "ds \<noteq> []" and dg: "list_all is_digit ds"
    and post: "post = [] \<or> (\<not> is_digit (hd post) \<and> hd post \<noteq> CHR ''-'')"
  shows "\<not> iso_shaped (take 10 (ds @ post))"
proof
  assume i: "iso_shaped (take 10 (ds @ post))"
  have len: "10 \<le> length (ds @ post)" using iso_shaped_length[OF i] by simp
  show False
  proof (cases "5 \<le> length ds")
    case True
    then have "take 10 (ds @ post) ! 4 = ds ! 4" by (simp add: nth_append)
    moreover have "is_digit (ds ! 4)" using dg True by (simp add: list_all_length)
    ultimately show False using iso_shaped_fifth[OF i] hyphen_not_digit by simp
  next
    case False
    then have p: "post \<noteq> []" using len by auto
    have "take 10 (ds @ post) ! length ds = hd post"
      using False p by (simp add: nth_append hd_conv_nth)
    moreover have "take 10 (ds @ post) ! length ds \<in> set (take 10 (ds @ post))"
      using False len by (intro nth_mem) simp
    ultimately have "is_digit (hd post) \<or> hd post = CHR ''-''"
      using iso_shaped_chars[OF i] by metis
    then show False using post p by blast
  qed
qed

lemma formatted_date_context_no_match:
  assumes "is_digit a" "is_digit b" "\<not> is_digit m1" "\<not> is_digit m2" "\<not> is_digit m3"
    "m1 \<noteq> CHR ''-''" "m2 \<noteq> CHR ''-''" "m3 \<noteq> CHR ''-''" "list_all is_digit ys"
    and post: "post = [] \<or> (\<not> is_digit (hd post) \<and> hd post \<noteq> CHR ''-'')"
    and n: "n < length (a # b # CHR ''-'' # m1 # m2 # m3 # CHR ''-'' # ys)"
  shows "\<not> iso_shaped (take 10 (drop n (a # b # CHR ''-'' # m1 # m2 # m3 # CHR ''-'' # ys) @ post))"
proof -
  have "7 \<le> n \<or> n = 6 \<or> n = 5 \<or> n = 4 \<or> n = 3 \<or> n = 2 \<or> n = 1 \<or> n = 0" by arith
  then show ?thesis
  proof (elim disjE)
    assume "7 \<le> n"
    then obtain k where k: "n = 7 + k" using le_Suc_ex by blast
    have d: "drop n (a # b # CHR ''-'' # m1 # m2 # m3 # CHR ''-'' # ys) = drop k ys"
      unfolding k by (simp add: numeral_eq_Suc)
    have "k < length ys" using n k by simp
    then have "drop k ys \<noteq> []" by simp
    moreover have "list_all is_digit (drop k ys)"
      using assms(9) by (simp add: list_all_iff) (meson in_set_dropD)
    ultimately show ?thesis unfolding d using post by (rule digits_context_not_iso_shaped)
  qed (use assms in \<open>auto simp: hyphen_not_digit dest!: iso_shaped_digits\<close>)
qed

lemma strftime_last:
  assumes "valid_date d"
  shows "strftime d \<noteq> [] \<and> is_word (last (strftime d))"
proof -
  obtain y m dd where d: "d = (y, m, dd)" by (cases d) auto
  have ne: "dec_nat y \<noteq> []" by (subst dec_nat.simps) simp
  then have "last (dec_nat y) \<in> set (dec_nat y)" by simp
  then have "is_digit (last (dec_nat y))" using dec_nat_digits[of y] by (simp add: list_all_iff)
  then show ?thesis using ne by (simp add: strftime_def d is_digit_word)
qed

text \<open>A formatted date between characters that are neither digits nor hyphens stays as
  it is, and the texts before and after it are rewritten as they are on their own.\<close>

lemma re_sub_iso_date_formatted_context:
  assumes v: "valid_date d"
    and pre: "pre = [] \<or> (\<not> is_digit (last pre) \<and> last pre \<noteq> CHR ''-'')"
    and post: "post = [] \<or> (\<not> is_digit (hd post) \<and> hd post \<noteq> CHR ''-'')"
  shows "re_sub iso_date w (pre @ strftime d @ post) =
           re_sub iso_date w pre @ strftime d @ re_sub iso_date True post"
proof -
  from strftime_shape[OF v] obtain a b m1 m2 m3 ys where
    s: "strftime d = a # b # CHR ''-'' # m1 # m2 # m3 # CHR ''-'' # ys" and
    p: "is_digit a" "is_digit b" "\<not> is_digit m1" "\<not> is_digit m2" "\<not> is_digit m3"
       "m1 \<noteq> CHR ''-''" "m2 \<noteq> CHR ''-''" "m3 \<noteq> CHR ''-''" "list_all is_digit ys"
    by blast
  have skip: "re_sub iso_date u (strftime d @ post) =
      strftime d @ re_sub iso_date (if strftime d = [] then u else is_word (last (strftime d))) post"
    for u
  proof (rule re_sub_skip)
    fix n v'
    assume "n < length (strftime d)"
    then show "iso_date v' (drop n (strftime d) @ post) = None"
      unfolding s iso_date_None_iff
      using formatted_date_context_no_match[OF p post, of n] by blast
  qed
  have mid: "re_sub iso_date u (strftime d @ post) = strftime d @ re_sub iso_date True post" for u
    using skip[of u] strftime_last[OF v] by simp
  have "re_sub iso_date w (pre @ strftime d @ post) =
      re_sub iso_date w pre @
      re_sub iso_date (if pre = [] then w else is_word (last pre)) (strftime d @ post)"
  proof (rule re_sub_append_stable)
    fix n v'
    assume n: "n < length pre"
    then have "drop n pre \<noteq> []" by simp
    moreover have "last (drop n pre) = last pre" using n by (simp add: last_drop)
    moreover have "pre \<noteq> []" using n by auto
    ultimately show "iso_date v' (drop n pre @ strftime d @ post) = iso_date v' (drop n pre)"
      using pre by (intro iso_date_append_closed) auto
  next
    fix n v' k r
    assume n: "n < length pre" and m: "iso_date v' (drop n pre) = Some (k, r)"
    from iso_date_Some[OF m] show "0 < k \<and> k \<le> length pre - n" by simp
  qed
  then show ?thesis unfolding mid .
qed

text \<open>No match starts at an ISO-shaped token that a word character precedes or follows.\<close>

lemma iso_date_word_before:
  assumes "iso_shaped raw"
  shows "iso_date True (raw @ post) = None"
proof -
  from assms obtain a rest where "raw = a # rest" "is_digit a" by (auto simp: iso_shaped_iff)
  then have "\<not> word_boundary True (raw @ post)" by (simp add: word_boundary_def is_digit_word)
  then show ?thesis by (simp add: iso_date_None_iff)
qed

lemma iso_date_word_after:
  assumes "iso_shaped raw" and "post \<noteq> []" and "is_word (hd post)"
  shows "iso_date w (raw @ post) = None"
proof -
  have l: "length raw = 10" by (rule iso_shaped_length[OF assms(1)])
  then have t: "take 10 (raw @ post) = raw" and d: "drop 10 (raw @ post) = post" by simp_all
  have "is_word (last raw)" using iso_shaped_last[OF assms(1)] by (rule is_digit_word)
  then have "\<not> word_boundary (is_word (last raw)) post"
    using assms(2,3) by (simp add: word_boundary_def)
  then show ?thesis unfolding iso_date_None_iff t d by blast
qed

text \<open>
  C6, as the code has it, for ASCII text. A value in the form the Field Resolver's date
  formatter produces (\<^verbatim>\<open>strftime\<close> of a valid date), standing in a text where the
  character before it and the character after it, if any, are neither digits nor hyphens,
  is left unchanged by rule 2, which rewrites the text before it and the text after it as
  it would on their own. An ISO-shaped token \<^verbatim>\<open>dddd-dd-dd\<close> that stands between word
  boundaries (no letter, digit or underscore directly before or after it) is rewritten by
  rule 2, whatever text surrounds it, to exactly what the Field Resolver's date formatter
  returns for that token: the \<^verbatim>\<open>DD-Mon-YYYY\<close> form of the date when the token parses, and
  the token itself, unchanged, when it does not. At an ISO-shaped token directly preceded
  or directly followed by a letter, a digit or an underscore, rule 2 makes no match.
\<close>

theorem rule2_date_forms:
  assumes "valid_date d"
    and "iso_shaped raw"
    and "format config = Some ''date''"
    and "list_all is_ascii (pre @ post)"
  shows "((pre = [] \<or> \<not> is_digit (last pre) \<and> last pre \<noteq> CHR ''-'') \<and>
          (post = [] \<or> \<not> is_digit (hd post) \<and> hd post \<noteq> CHR ''-'') \<longrightarrow>
            re_sub iso_date w (pre @ strftime d @ post) =
              re_sub iso_date w pre @ strftime d @ re_sub iso_date True post) \<and>
         ((pre = [] \<or> \<not> is_word (last pre)) \<and> (post = [] \<or> \<not> is_word (hd post)) \<longrightarrow>
            re_sub iso_date False (pre @ raw @ post) =
              re_sub iso_date False pre @ py_str (format_field field_name (PStr raw) config) @
              re_sub iso_date True post) \<and>
         (strptime_ymd raw = Some d' \<longrightarrow>
            format_field field_name (PStr raw) config = PStr (strftime d')) \<and>
         (strptime_ymd raw = None \<longrightarrow> format_field field_name (PStr raw) config = PStr raw) \<and>
         iso_date True (raw @ post) = None \<and>
         (post \<noteq> [] \<and> is_word (hd post) \<longrightarrow> iso_date w (raw @ post) = None)"
proof -
  have 1: "re_sub iso_date w (pre @ strftime d @ post) =
      re_sub iso_date w pre @ strftime d @ re_sub iso_date True post"
    if "pre = [] \<or> \<not> is_digit (last pre) \<and> last pre \<noteq> CHR ''-''"
      and "post = [] \<or> \<not> is_digit (hd post) \<and> hd post \<noteq> CHR ''-''"
    using that by (intro re_sub_iso_date_formatted_context[OF assms(1)]) auto
  have 2: "re_sub iso_date False (pre @ raw @ post) =
      re_sub iso_date False pre @ py_str (format_field field_name (PStr raw) config) @
      re_sub iso_date True post"
    if a: "pre = [] \<or> \<not> is_word (last pre)" and b: "post = [] \<or> \<not> is_word (hd post)"
  proof -
    have "(if pre = [] then \<not> False else \<not> is_word (last pre))" using a by auto
    then have "re_sub iso_date False (pre @ raw @ post) =
        re_sub iso_date False pre @ date_repl raw @ re_sub iso_date True post"
      by (rule re_sub_iso_date_context[OF assms(2) b])
    then show ?thesis
      using format_field_iso_shaped[OF assms(2) assms(3), of field_name] by simp
  qed
  have 3: "format_field field_name (PStr raw) config = PStr (strftime d')"
    if "strptime_ymd raw = Some d'"
    using that format_field_iso_shaped[OF assms(2) assms(3), of field_name]
    by (simp add: date_repl_def)
  have 4: "format_field field_name (PStr raw) config = PStr raw" if "strptime_ymd raw = None"
    using that format_field_iso_shaped[OF assms(2) assms(3), of field_name]
    by (simp add: date_repl_def)
  have 5: "iso_date True (raw @ post) = None" by (rule iso_date_word_before[OF assms(2)])
  have 6: "iso_date w (raw @ post) = None" if "post \<noteq> [] \<and> is_word (hd post)"
    using that by (intro iso_date_word_after[OF assms(2)]) auto
  show ?thesis using 1 2 3 4 5 6 by blast
qed

theorem rule2_date_forms_witness:
  "re_sub iso_date False ''on 20-Dec-2023.'' = ''on 20-Dec-2023.'' \<and>
   re_sub iso_date False ''on 2023-12-20.'' = ''on 20-Dec-2023.'' \<and>
   format_field ''start_date'' (PStr ''2023-12-20'') \<lparr>value_map = None, format = Some ''date''\<rparr>
     = PStr ''20-Dec-2023'' \<and>
   iso_date True ''2023-12-20.'' = None \<and>
   iso_date False ''2023-12-20T10:30:00'' = None"
proof -
  let ?cfg = "\<lparr>value_map = None, format = Some ''date''\<rparr>"
  have v: "valid_date (2023, 12, 20)" by (simp add: valid_date_def days_in_month_def)
  have i: "iso_shaped ''2023-12-20''"
    by (simp add: iso_shaped_def iso_pattern_def is_digit_def digits_def)
  have f: "format ?cfg = Some ''date''" by simp
  have a1: "list_all is_ascii (''on '' @ ''.'')" by (simp add: is_ascii_def)
  have a2: "list_all is_ascii ([] @ ''T10:30:00'')" by (simp add: is_ascii_def)
  note t1 = rule2_date_forms[OF v i f a1, of False "''start_date''" "(2023, 12, 20)"]
  note t2 = rule2_date_forms[OF v i f a2, of False "''start_date''" "(2023, 12, 20)"]
  have c: "\<not> is_digit (last ''on '') \<and> last ''on '' \<noteq> CHR ''-''"
    "\<not> is_digit (hd ''.'') \<and> hd ''.'' \<noteq> CHR ''-''"
    "\<not> is_word (last ''on '')" "\<not> is_word (hd ''.'')" "is_word (hd ''T10:30:00'')"
    by (simp_all add: char_class_defs)
  have e1: "strftime (2023, 12, 20) = ''20-Dec-2023''" by code_simp
  have e2: "re_sub iso_date False ''on '' = ''on ''" by code_simp
  have e3: "re_sub iso_date True ''.'' = ''.''" by code_simp
  have e4: "strptime_ymd ''2023-12-20'' = Some (2023, 12, 20)" by code_simp
  have "re_sub iso_date False (''on '' @ strftime (2023, 12, 20) @ ''.'') =
      re_sub iso_date False ''on '' @ strftime (2023, 12, 20) @ re_sub iso_date True ''.''"
    using t1 c by blast
  then have w1: "re_sub iso_date False ''on 20-Dec-2023.'' = ''on 20-Dec-2023.''"
    unfolding e1 e2 e3 by simp
  have w3: "format_field ''start_date'' (PStr ''2023-12-20'') ?cfg = PStr ''20-Dec-2023''"
    using t1 e4 e1 by simp
  have "re_sub iso_date False (''on '' @ ''2023-12-20'' @ ''.'') =
      re_sub iso_date False ''on '' @
      py_str (format_field ''start_date'' (PStr ''2023-12-20'') ?cfg) @ re_sub iso_date True ''.''"
    using t1 c by blast
  then have w2: "re_sub iso_date False ''on 2023-12-20.'' = ''on 20-Dec-2023.''"
    unfolding w3 e2 e3 by simp
  have w4: "iso_date True (''2023-12-20'' @ ''.'') = None" using t1 by blast
  have "''T10:30:00'' \<noteq> [] \<and> is_word (hd ''T10:30:00'')" using c(5) by simp
  then have w5: "iso_date False (''2023-12-20'' @ ''T10:30:00'') = None" using t2 by blast
  show ?thesis using w1 w2 w3 w4 w5 by simp
qed

text \<open>
  C6, counterexample: the text \<^verbatim>\<open>2023-12-20T10:30:00\<close> contains the ISO date
  \<^verbatim>\<open>2023-12-20\<close>, for which the Field Resolver's formatter produces \<^verbatim>\<open>20-Dec-2023\<close>, and
  rule 2 leaves the text as it is: the \<^verbatim>\<open>T\<close> behind the date is a word character, so
  the pattern's closing \<^verbatim>\<open>\b\<close> does not hold. And the formatter's value \<^verbatim>\<open>20-Dec-2023\<close>
  is not left unchanged when the text goes on with \<^verbatim>\<open>-11-05\<close>: its year starts a new
  ISO date, which rule 2 rewrites.
\<close>

theorem rule2_iso_datetime_counterexample:
  "re_sub iso_date False ''2023-12-20T10:30:00'' = ''2023-12-20T10:30:00'' \<and>
   format_field ''start_date'' (PStr ''2023-12-20'') \<lparr>value_map = None, format = Some ''date''\<rparr>
     = PStr ''20-Dec-2023'' \<and>
   re_sub iso_date False ''20-Dec-2023-11-05'' = ''20-Dec-05-Nov-2023''"
  by code_simp

section \<open>The rules applied to their own result\<close>

subsection \<open>Quiet texts are fixed points\<close>

lemma quiet_drop:
  "quiet m w s \<Longrightarrow> 0 < k \<Longrightarrow> k \<le> length s \<Longrightarrow>
   quiet m (is_word (last (take k s))) (drop k s)"
proof (induction s arbitrary: w k)
  case Nil
  then show ?case by simp
next
  case (Cons c cs)
  from Cons.prems(2) obtain j where k: "k = Suc j" by (cases k) auto
  have q: "quiet m (is_word c) cs" using Cons.prems(1) by simp
  show ?case
  proof (cases "j = 0")
    case True
    then show ?thesis using q k by simp
  next
    case False
    then have j: "0 < j" "j \<le> length cs" using Cons.prems(3) k by auto
    then have "take j cs \<noteq> []" by auto
    then have "last (take k (c # cs)) = last (take j cs)" unfolding k by simp
    moreover have "drop k (c # cs) = drop j cs" unfolding k by simp
    ultimately show ?thesis using Cons.IH[OF q j] by simp
  qed
qed

lemma re_sub_quiet: "quiet m w s \<Longrightarrow> re_sub m w s = s"
proof (induction "length s" arbitrary: s w rule: less_induct)
  case less
  show ?case
  proof (cases s)
    case Nil
    then show ?thesis by simp
  next
    case (Cons c cs)
    show ?thesis
    proof (cases "m w (c # cs)")
      case None
      then show ?thesis using less.hyps[of cs "is_word c"] less.prems Cons by simp
    next
      case (Some a)
      obtain k r where a: "a = (k, r)" by (cases a) auto
      have i: "0 < k" "k \<le> length s" "r = take k s"
        using less.prems Cons Some a by auto
      have "quiet m (is_word (last (take k s))) (drop k s)"
        using quiet_drop[OF less.prems i(1) i(2)] .
      moreover have "length (drop k s) < length s" using i Cons by simp
      ultimately have "re_sub m (is_word (last (take k s))) (drop k s) = drop k s"
        using less.hyps by blast
      then show ?thesis using Some a i Cons by (simp del: take_Suc_Cons drop_Suc_Cons)
    qed
  qed
qed

text \<open>A replacement followed by a quiet rest: quiet when no position inside the
  replacement starts a match that changes the text.\<close>

lemma quiet_append:
  assumes "\<And>a b. r = a @ b \<Longrightarrow> b \<noteq> [] \<Longrightarrow>
             inert (m (if a = [] then w else is_word (last a)) (b @ z)) (b @ z)"
    and "quiet m (if r = [] then w else is_word (last r)) z"
  shows "quiet m w (r @ z)"
  using assms
proof (induction r arbitrary: w)
  case Nil
  then show ?case by simp
next
  case (Cons c r)
  have "inert (m w ((c # r) @ z)) ((c # r) @ z)"
    using Cons.prems(1)[of "[]" "c # r"] by simp
  moreover have "quiet m (is_word c) (r @ z)"
  proof (rule Cons.IH)
    fix a b
    assume "r = a @ b" "b \<noteq> []"
    then show "inert (m (if a = [] then is_word c else is_word (last a)) (b @ z)) (b @ z)"
      using Cons.prems(1)[of "c # a" b] by (cases a) simp_all
  next
    show "quiet m (if r = [] then is_word c else is_word (last r)) z"
      using Cons.prems(2) by (cases r) simp_all
  qed
  ultimately show ?case by simp
qed

subsection \<open>Lowered texts\<close>

lemma lower_char_idem: "lower_char (lower_char c) = lower_char c"
  by (simp add: char_class_defs)

lemma is_word_lower_char: "is_word (lower_char c) = is_word c"
  by (simp add: char_class_defs)

lemma is_digit_lower_char: "is_digit (lower_char c) = is_digit c"
  by (simp add: char_class_defs)

lemma lower_char_not_upper: "\<not> is_upper (lower_char c)"
  by (simp add: char_class_defs)

lemma lower_char_upper: "is_upper c \<Longrightarrow> is_lower (lower_char c)"
  by (auto simp: char_class_defs)

lemma lower_char_not_upper_id: "\<not> is_upper c \<Longrightarrow> lower_char c = c"
  by (simp add: char_class_defs)

lemma digit_not_upper: "is_digit c \<Longrightarrow> \<not> is_upper c"
  by (auto simp: is_digit_def is_upper_def digits_def upper_letters_def)

lemma lower_char_digit: "is_digit c \<Longrightarrow> lower_char c = c"
  by (simp add: digit_not_upper lower_char_not_upper_id)

lemma lower_char_changed: "lower_char c \<noteq> c \<Longrightarrow> is_lower (lower_char c)"
  using lower_char_upper lower_char_not_upper_id by blast

lemma lower_char_period: "lower_char c = CHR ''.'' \<longleftrightarrow> c = CHR ''.''"
  by (simp add: char_class_defs)

lemma lowered_refl: "lowered s s"
  by (simp add: lowered_def list_all2_refl)

lemma lowered_Nil [simp]: "lowered [] s \<longleftrightarrow> s = []" "lowered s [] \<longleftrightarrow> s = []"
  by (auto simp: lowered_def)

lemma lowered_Cons:
  "lowered (x # xs) (y # ys) \<longleftrightarrow> (x = y \<or> x = lower_char y) \<and> lowered xs ys"
  by (simp add: lowered_def)

lemma lowered_length: "lowered s' s \<Longrightarrow> length s' = length s"
  by (simp add: lowered_def list_all2_lengthD)

lemma lowered_append:
  "lowered a' a \<Longrightarrow> lowered b' b \<Longrightarrow> lowered (a' @ b') (a @ b)"
  by (simp add: lowered_def list_all2_appendI)

lemma lowered_take: "lowered s' s \<Longrightarrow> lowered (take n s') (take n s)"
  by (simp add: lowered_def list_all2_takeI)

lemma lowered_drop: "lowered s' s \<Longrightarrow> lowered (drop n s') (drop n s)"
  by (simp add: lowered_def list_all2_dropI)

lemma lowered_lower: "lowered (lower s) s"
  by (induction s) (simp_all add: lower_def lowered_Cons)

lemma lowered_induct [consumes 1, case_names Nil Cons]:
  assumes "lowered s' s"
    and "P [] []"
    and "\<And>x xs y ys. x = y \<or> x = lower_char y \<Longrightarrow> lowered xs ys \<Longrightarrow> P xs ys \<Longrightarrow>
           P (x # xs) (y # ys)"
  shows "P s' s"
  using assms(1) unfolding lowered_def
proof (induction rule: list_all2_induct)
  case Nil
  show ?case by (rule assms(2))
next
  case (Cons x xs y ys)
  then show ?case using assms(3)[of x y xs ys] by (simp add: lowered_def)
qed

lemma lowered_lower_eq: "lowered s' s \<Longrightarrow> lower s' = lower s"
proof (induction rule: lowered_induct)
  case Nil
  show ?case by simp
next
  case (Cons x xs y ys)
  have "lower_char x = lower_char y" using Cons(1) by (auto simp: lower_char_idem)
  then show ?case using Cons(3) by (simp add: lower_def)
qed

lemma lowered_hd_word:
  "lowered s' s \<Longrightarrow> (s' \<noteq> [] \<and> is_word (hd s')) = (s \<noteq> [] \<and> is_word (hd s))"
  by (cases s'; cases s) (auto simp: lowered_Cons is_word_lower_char)

lemma lowered_word_boundary:
  "lowered s' s \<Longrightarrow> word_boundary w s' = word_boundary w s"
  using lowered_hd_word[of s' s] by (simp add: word_boundary_def)

lemma lowered_last_word:
  "lowered s' s \<Longrightarrow> s \<noteq> [] \<Longrightarrow> is_word (last s') = is_word (last s)"
proof (induction rule: lowered_induct)
  case Nil
  then show ?case by simp
next
  case (Cons x xs y ys)
  show ?case
  proof (cases ys)
    case Nil
    then have "xs = []" using Cons(2) by simp
    then show ?thesis using Nil Cons(1) by (auto simp: is_word_lower_char)
  next
    case (Cons z zs)
    then have "xs \<noteq> []" using \<open>lowered xs ys\<close> by auto
    moreover have "is_word (last xs) = is_word (last ys)"
      using \<open>ys \<noteq> [] \<Longrightarrow> is_word (last xs) = is_word (last ys)\<close> Cons by simp
    ultimately show ?thesis using Cons by simp
  qed
qed

text \<open>A rule whose replacements are the matched text with some letters lower-cased
  returns the text lowered.\<close>

lemma re_sub_lowered:
  assumes "\<And>w x k r. m w x = Some (k, r) \<Longrightarrow> 0 < k \<and> k \<le> length x \<and> lowered r (take k x)"
  shows "lowered (re_sub m w s) s"
proof (induction "length s" arbitrary: s w rule: less_induct)
  case less
  show ?case
  proof (cases s)
    case Nil
    then show ?thesis by simp
  next
    case (Cons c cs)
    show ?thesis
    proof (cases "m w (c # cs)")
      case None
      then show ?thesis using less.hyps[of cs "is_word c"] Cons by (simp add: lowered_Cons)
    next
      case (Some a)
      obtain k r where a: "a = (k, r)" by (cases a) auto
      from assms[OF Some[unfolded a]] have
        k: "0 < k" "k \<le> length s" and r: "lowered r (take k s)" using Cons by auto
      have "length (drop k s) < length s" using k Cons by simp
      then have "lowered (re_sub m (is_word (last (take k s))) (drop k s)) (drop k s)"
        using less.hyps by blast
      then have "lowered (r @ re_sub m (is_word (last (take k s))) (drop k s))
                   (take k s @ drop k s)"
        using r by (rule lowered_append[rotated])
      then show ?thesis using Some a k Cons by (simp del: take_Suc_Cons drop_Suc_Cons)
    qed
  qed
qed

text \<open>Quietness passes to a lowered text when inertness at a position does.\<close>

lemma quiet_lowered:
  assumes "\<And>w x x'. lowered x' x \<Longrightarrow> inert (m w x) x \<Longrightarrow> inert (m w x') x'"
  shows "lowered s' s \<Longrightarrow> quiet m w s \<Longrightarrow> quiet m w s'"
proof (induction s' arbitrary: s w)
  case Nil
  then show ?case by simp
next
  case (Cons x s')
  then obtain y t where s: "s = y # t" by (cases s) auto
  have "inert (m w (x # s')) (x # s')"
    using assms[of "x # s'" "y # t" w] Cons.prems s by simp
  moreover have "is_word x = is_word y"
    using Cons.prems(1) s by (auto simp: lowered_Cons is_word_lower_char)
  moreover have "quiet m (is_word y) s'"
    using Cons.IH[of t "is_word y"] Cons.prems s by (simp add: lowered_Cons)
  ultimately show ?case by simp
qed


subsection \<open>Applying a rule to the output of a rule\<close>

text \<open>The output of a rule is quiet for the rule itself.\<close>

lemma quiet_re_sub_self:
  assumes HT: "\<And>w c cs. m w (c # cs) = None \<Longrightarrow>
              inert (m w (c # re_sub m (is_word c) cs)) (c # re_sub m (is_word c) cs)"
    and INS: "\<And>w x k r a b. m w x = Some (k, r) \<Longrightarrow> r = a @ b \<Longrightarrow> b \<noteq> [] \<Longrightarrow>
              inert (m (if a = [] then w else is_word (last a))
                       (b @ re_sub m (is_word (last (take k x))) (drop k x)))
                    (b @ re_sub m (is_word (last (take k x))) (drop k x))"
    and K: "\<And>w x k r. m w x = Some (k, r) \<Longrightarrow>
              0 < k \<and> r \<noteq> [] \<and> is_word (last r) = is_word (last (take k x))"
  shows "quiet m w (re_sub m w s)"
proof (induction "length s" arbitrary: s w rule: less_induct)
  case less
  show ?case
  proof (cases s)
    case Nil
    then show ?thesis by simp
  next
    case (Cons c cs)
    show ?thesis
    proof (cases "m w (c # cs)")
      case None
      have "quiet m (is_word c) (re_sub m (is_word c) cs)"
        using less.hyps[of cs "is_word c"] Cons by simp
      then show ?thesis using None HT[OF None] Cons by simp
    next
      case (Some p)
      obtain k r where p: "p = (k, r)" by (cases p) auto
      note S = Some[unfolded p]
      from K[OF S] have k: "0 < k" "r \<noteq> []"
        "is_word (last r) = is_word (last (take k (c # cs)))" by auto
      let ?Z = "re_sub m (is_word (last (take k (c # cs)))) (drop k (c # cs))"
      have "length (drop k (c # cs)) < length s" using k Cons by simp
      then have qZ: "quiet m (is_word (last (take k (c # cs)))) ?Z"
        using less.hyps by blast
      have "quiet m w (r @ ?Z)"
      proof (rule quiet_append)
        fix a b assume "r = a @ b" "b \<noteq> []"
        then show "inert (m (if a = [] then w else is_word (last a)) (b @ ?Z)) (b @ ?Z)"
          using INS[OF S] by blast
      next
        show "quiet m (if r = [] then w else is_word (last r)) ?Z"
          using qZ k by simp
      qed
      then show ?thesis using S k Cons Some p by (simp del: take_Suc_Cons drop_Suc_Cons)
    qed
  qed
qed

text \<open>A text that is quiet for one rule stays quiet for it under another rule.\<close>

lemma quiet_re_sub_other:
  assumes HT: "\<And>w c cs. inert (mi w (c # cs)) (c # cs) \<Longrightarrow> mj w (c # cs) = None \<Longrightarrow>
              inert (mi w (c # re_sub mj (is_word c) cs)) (c # re_sub mj (is_word c) cs)"
    and INS: "\<And>w x k r a b. mj w x = Some (k, r) \<Longrightarrow> r = a @ b \<Longrightarrow> b \<noteq> [] \<Longrightarrow>
              inert (mi (if a = [] then w else is_word (last a))
                       (b @ re_sub mj (is_word (last (take k x))) (drop k x)))
                    (b @ re_sub mj (is_word (last (take k x))) (drop k x))"
    and K: "\<And>w x k r. mj w x = Some (k, r) \<Longrightarrow>
              0 < k \<and> k \<le> length x \<and> r \<noteq> [] \<and>
              is_word (last r) = is_word (last (take k x))"
  shows "quiet mi w s \<Longrightarrow> quiet mi w (re_sub mj w s)"
proof (induction "length s" arbitrary: s w rule: less_induct)
  case less
  show ?case
  proof (cases s)
    case Nil
    then show ?thesis by simp
  next
    case (Cons c cs)
    show ?thesis
    proof (cases "mj w (c # cs)")
      case None
      have "quiet mi (is_word c) (re_sub mj (is_word c) cs)"
        using less.hyps[of cs "is_word c"] less.prems Cons by simp
      moreover have "inert (mi w (c # cs)) (c # cs)" using less.prems Cons by simp
      ultimately show ?thesis using None HT[OF _ None] Cons by simp
    next
      case (Some p)
      obtain k r where p: "p = (k, r)" by (cases p) auto
      note S = Some[unfolded p]
      from K[OF S] have k: "0 < k" "k \<le> length (c # cs)" "r \<noteq> []"
        "is_word (last r) = is_word (last (take k (c # cs)))" by auto
      let ?Z = "re_sub mj (is_word (last (take k (c # cs)))) (drop k (c # cs))"
      have "quiet mi (is_word (last (take k (c # cs)))) (drop k (c # cs))"
        using quiet_drop[OF _ k(1) k(2)] less.prems Cons by simp
      moreover have "length (drop k (c # cs)) < length s" using k Cons by simp
      ultimately have qZ: "quiet mi (is_word (last (take k (c # cs)))) ?Z"
        using less.hyps by blast
      have "quiet mi w (r @ ?Z)"
      proof (rule quiet_append)
        fix a b assume "r = a @ b" "b \<noteq> []"
        then show "inert (mi (if a = [] then w else is_word (last a)) (b @ ?Z)) (b @ ?Z)"
          using INS[OF S] by blast
      next
        show "quiet mi (if r = [] then w else is_word (last r)) ?Z"
          using qZ k by simp
      qed
      then show ?thesis using S k Cons Some p by (simp del: take_Suc_Cons drop_Suc_Cons)
    qed
  qed
qed

text \<open>
  The start of a rule's output: either the first \<open>n\<close> characters were copied and the
  scan goes on behind them, or some earlier position holds the first character of a
  replacement.
\<close>

lemma re_sub_window:
  assumes "\<And>v x k r. m v x = Some (k, r) \<Longrightarrow> r \<noteq> [] \<and> B (hd r)"
  shows "re_sub m v x =
           take n x @ re_sub m (if take n x = [] then v else is_word (last (take n x))) (drop n x)
         \<or> (\<exists>q<n. q < length (re_sub m v x) \<and> B (re_sub m v x ! q))"
proof (induction n arbitrary: x v)
  case 0
  show ?case by simp
next
  case (Suc n)
  show ?case
  proof (cases x)
    case Nil
    then show ?thesis by simp
  next
    case (Cons c cs)
    show ?thesis
    proof (cases "m v (c # cs)")
      case (Some p)
      obtain k r where p: "p = (k, r)" by (cases p) auto
      from assms[OF Some[unfolded p]] obtain d ds where r: "r = d # ds" "B d"
        by (cases r) auto
      have "re_sub m v x ! 0 = d \<and> 0 < length (re_sub m v x)"
        using Some p r Cons by (simp del: take_Suc_Cons drop_Suc_Cons)
      then show ?thesis using r(2) by auto
    next
      case None
      then have out: "re_sub m v x = c # re_sub m (is_word c) cs" using Cons by simp
      from Suc.IH[of "is_word c" cs] show ?thesis
      proof
        assume a: "re_sub m (is_word c) cs =
          take n cs @ re_sub m (if take n cs = [] then is_word c else is_word (last (take n cs)))
            (drop n cs)"
        have "re_sub m v x = take (Suc n) x @
            re_sub m (if take (Suc n) x = [] then v else is_word (last (take (Suc n) x)))
              (drop (Suc n) x)"
          unfolding out using a Cons by simp
        then show ?thesis by blast
      next
        assume "\<exists>q<n. q < length (re_sub m (is_word c) cs) \<and> B (re_sub m (is_word c) cs ! q)"
        then obtain q where "q < n" "q < length (re_sub m (is_word c) cs)"
          "B (re_sub m (is_word c) cs ! q)" by blast
        then have "Suc q < Suc n \<and> Suc q < length (re_sub m v x) \<and> B (re_sub m v x ! Suc q)"
          unfolding out by simp
        then show ?thesis by blast
      qed
    qed
  qed
qed


subsection \<open>The matchers and lowered texts\<close>

lemma lower_idem: "lower (lower s) = lower s"
  by (simp add: lower_def lower_char_idem)

lemma lower_append: "lower (a @ b) = lower a @ lower b"
  by (simp add: lower_def)

lemma length_lower [simp]: "length (lower s) = length s"
  by (simp add: lower_def)

lemma lowered_fix: "lowered a b \<Longrightarrow> lower b = b \<Longrightarrow> a = b"
proof (induction rule: lowered_induct)
  case Nil
  show ?case by simp
next
  case (Cons x xs y ys)
  then show ?case by (auto simp: lower_def)
qed

lemma lowered_not_lower: "lowered a b \<Longrightarrow> list_all (\<lambda>c. \<not> is_lower c) a \<Longrightarrow> a = b"
proof (induction rule: lowered_induct)
  case Nil
  show ?case by simp
next
  case (Cons x xs y ys)
  have "x = y" using Cons(1) Cons.prems lower_char_changed[of y] by auto
  then show ?case using Cons by simp
qed

lemma lowered_takeWhile_period:
  "lowered a b \<Longrightarrow>
   lowered (takeWhile (\<lambda>c. c \<noteq> CHR ''.'') a) (takeWhile (\<lambda>c. c \<noteq> CHR ''.'') b)"
proof (induction rule: lowered_induct)
  case Nil
  show ?case by simp
next
  case (Cons x xs y ys)
  have "x = CHR ''.'' \<longleftrightarrow> y = CHR ''.''" using Cons(1) lower_char_period by auto
  then show ?case using Cons by (simp add: lowered_Cons)
qed

lemma lowered_takeWhile_digit:
  "lowered a b \<Longrightarrow> takeWhile is_digit a = takeWhile is_digit b"
proof (induction rule: lowered_induct)
  case Nil
  show ?case by simp
next
  case (Cons x xs y ys)
  have "is_digit x = is_digit y" using Cons(1) is_digit_lower_char by auto
  moreover have "is_digit y \<Longrightarrow> x = y" using Cons(1) lower_char_digit by auto
  ultimately show ?case using Cons by auto
qed

lemma starts_with_ci_lowered:
  "lowered x' x \<Longrightarrow> starts_with True p x' = starts_with True p x"
  by (simp add: starts_with_def lowered_length lowered_lower_eq[OF lowered_take])

lemma lowered_last_take_word:
  assumes "lowered x' x"
  shows "is_word (last (take n x')) = is_word (last (take n x))"
proof (cases "take n x = []")
  case True
  then have "take n x' = []" using lowered_length[OF assms] by auto
  then show ?thesis using True by (simp only:)
next
  case False
  then show ?thesis using lowered_last_word[OF lowered_take[OF assms]] by blast
qed

subsubsection \<open>Literals between word boundaries\<close>

lemma word_literal_Some:
  "word_literal ic p rep w x = Some (k, r) \<longleftrightarrow>
     k = length p \<and> r = rep \<and> word_boundary w x \<and> starts_with ic p x \<and>
     word_boundary (is_word (last (take (length p) x))) (drop (length p) x)"
  by (auto simp: word_literal_def)

lemma word_literal_None:
  "word_literal ic p rep w x = None \<longleftrightarrow>
     \<not> (word_boundary w x \<and> starts_with ic p x \<and>
        word_boundary (is_word (last (take (length p) x))) (drop (length p) x))"
  by (auto simp: word_literal_def)

lemma word_literal_ci_lowered:
  assumes "lowered x' x"
  shows "word_literal True p rep w x' = word_literal True p rep w x"
  using lowered_word_boundary[OF assms] starts_with_ci_lowered[OF assms]
    lowered_word_boundary[OF lowered_drop[OF assms]] lowered_last_take_word[OF assms]
  by (simp add: word_literal_def)

lemma starts_with_cs_lowered:
  assumes "lowered x' x" and "list_all (\<lambda>c. \<not> is_lower c) p" and "starts_with False p x'"
  shows "starts_with False p x"
proof -
  have "take (length p) x' = p" "length p \<le> length x'"
    using assms(3) by (simp_all add: starts_with_def)
  then have "take (length p) x' = take (length p) x"
    using lowered_not_lower[OF lowered_take[OF assms(1), of "length p"]] assms(2) by simp
  then show ?thesis using assms(3) lowered_length[OF assms(1)] by (simp add: starts_with_def)
qed

lemma word_literal_cs_lowered:
  assumes "lowered x' x" and "list_all (\<lambda>c. \<not> is_lower c) p"
    and "word_literal False p rep w x = None"
  shows "word_literal False p rep w x' = None"
proof (rule ccontr)
  assume "word_literal False p rep w x' \<noteq> None"
  then have a: "word_boundary w x'" and b: "starts_with False p x'"
    and c: "word_boundary (is_word (last (take (length p) x'))) (drop (length p) x')"
    unfolding word_literal_None by simp_all
  have "word_boundary w x" using a lowered_word_boundary[OF assms(1)] by simp
  moreover have "starts_with False p x" by (rule starts_with_cs_lowered[OF assms(1,2) b])
  moreover have "word_boundary (is_word (last (take (length p) x))) (drop (length p) x)"
    using c lowered_word_boundary[OF lowered_drop[OF assms(1)]]
      lowered_last_take_word[OF assms(1)]
    by simp
  ultimately show False using assms(3) unfolding word_literal_None by simp
qed

lemma word_literal_ci_inert:
  "length rep \<noteq> length p \<Longrightarrow>
   inert (word_literal True p rep w x) x \<longleftrightarrow> word_literal True p rep w x = None"
  by (cases "word_literal True p rep w x") (auto simp: word_literal_Some)

lemma word_literal_cs_inert:
  "rep \<noteq> p \<Longrightarrow>
   inert (word_literal False p rep w x) x \<longleftrightarrow> word_literal False p rep w x = None"
  by (cases "word_literal False p rep w x") (auto simp: word_literal_Some starts_with_def)

lemma quiet_ci_literal_lowered:
  assumes "length rep \<noteq> length p"
  shows "lowered s' s \<Longrightarrow> quiet (word_literal True p rep) w s \<Longrightarrow>
         quiet (word_literal True p rep) w s'"
proof (rule quiet_lowered)
  fix w x x'
  assume "lowered x' x" "inert (word_literal True p rep w x) x"
  then show "inert (word_literal True p rep w x') x'"
    using word_literal_ci_lowered[of x' x p rep w] word_literal_ci_inert[OF assms] by simp
qed

lemma quiet_cs_literal_lowered:
  assumes "rep \<noteq> p" and "list_all (\<lambda>c. \<not> is_lower c) p"
  shows "lowered s' s \<Longrightarrow> quiet (word_literal False p rep) w s \<Longrightarrow>
         quiet (word_literal False p rep) w s'"
proof (rule quiet_lowered)
  fix w x x'
  assume "lowered x' x" "inert (word_literal False p rep w x) x"
  then show "inert (word_literal False p rep w x') x'"
    using word_literal_cs_lowered[of x' x p rep w] word_literal_cs_inert[OF assms(1)] assms(2)
    by simp
qed

lemma re_sub_cs_literal_lowered:
  assumes "lowered rep p" and "p \<noteq> []"
  shows "lowered (re_sub (word_literal False p rep) w s) s"
proof (rule re_sub_lowered)
  fix w x k r
  assume "word_literal False p rep w x = Some (k, r)"
  then show "0 < k \<and> k \<le> length x \<and> lowered r (take k x)"
    using assms by (auto simp: word_literal_Some starts_with_def)
qed

subsubsection \<open>Clauses\<close>

lemma clause_after_Some:
  assumes "clause_after T w x = Some (k, r)"
  shows "starts_with True T x \<and>
         takeWhile (\<lambda>c. c \<noteq> CHR ''.'') (drop (length T) x) \<noteq> [] \<and>
         k = length T + length (takeWhile (\<lambda>c. c \<noteq> CHR ''.'') (drop (length T) x)) \<and>
         r = take (length T) x @ lower (takeWhile (\<lambda>c. c \<noteq> CHR ''.'') (drop (length T) x)) \<and>
         take k x = take (length T) x @ takeWhile (\<lambda>c. c \<noteq> CHR ''.'') (drop (length T) x) \<and>
         k \<le> length x"
proof -
  let ?C = "takeWhile (\<lambda>c. c \<noteq> CHR ''.'') (drop (length T) x)"
  from assms have s: "starts_with True T x" and c: "?C \<noteq> []"
    and k: "k = length T + length ?C" and r: "r = take (length T) x @ lower ?C"
    by (auto simp: clause_after_def Let_def split: if_splits)
  have "take (length ?C) (drop (length T) x) = ?C"
    using takeWhile_eq_take[of "\<lambda>c. c \<noteq> CHR ''.''" "drop (length T) x"] by simp
  then have t: "take k x = take (length T) x @ ?C"
    unfolding k by (simp add: take_add)
  have "length ?C \<le> length (drop (length T) x)" by (rule length_takeWhile_le)
  moreover have "length T \<le> length x" using s by (simp add: starts_with_def)
  ultimately have "k \<le> length x" unfolding k by simp
  then show ?thesis using s c k r t by blast
qed

lemma clause_after_None:
  "clause_after T w x = None \<longleftrightarrow>
     \<not> starts_with True T x \<or> takeWhile (\<lambda>c. c \<noteq> CHR ''.'') (drop (length T) x) = []"
  by (auto simp: clause_after_def Let_def)

lemma clause_inert_iff:
  "inert (clause_after T w x) x \<longleftrightarrow>
     (starts_with True T x \<longrightarrow>
        lower (takeWhile (\<lambda>c. c \<noteq> CHR ''.'') (drop (length T) x)) =
          takeWhile (\<lambda>c. c \<noteq> CHR ''.'') (drop (length T) x))"
proof (cases "clause_after T w x")
  case None
  then show ?thesis unfolding clause_after_None by (auto simp: None lower_def)
next
  case (Some p)
  obtain k r where p: "p = (k, r)" by (cases p) auto
  from clause_after_Some[OF Some[unfolded p]] show ?thesis
    by (auto simp: Some p)
qed

lemma clause_lowering:
  assumes "clause_after T w x = Some (k, r)"
  shows "0 < k \<and> k \<le> length x \<and> lowered r (take k x)"
proof -
  from clause_after_Some[OF assms] have
    c: "takeWhile (\<lambda>c. c \<noteq> CHR ''.'') (drop (length T) x) \<noteq> []" and
    k: "k = length T + length (takeWhile (\<lambda>c. c \<noteq> CHR ''.'') (drop (length T) x))" and
    r: "r = take (length T) x @ lower (takeWhile (\<lambda>c. c \<noteq> CHR ''.'') (drop (length T) x))" and
    t: "take k x = take (length T) x @ takeWhile (\<lambda>c. c \<noteq> CHR ''.'') (drop (length T) x)" and
    l: "k \<le> length x"
    by auto
  have "lowered r (take k x)" unfolding r t
    by (rule lowered_append[OF lowered_refl lowered_lower])
  then show ?thesis using c k l by simp
qed

lemma re_sub_clause_lowered: "lowered (re_sub (clause_after T) w s) s"
  by (rule re_sub_lowered) (rule clause_lowering)

lemma quiet_clause_lowered:
  "lowered s' s \<Longrightarrow> quiet (clause_after T) w s \<Longrightarrow> quiet (clause_after T) w s'"
proof (rule quiet_lowered)
  fix w x x'
  assume l: "lowered x' x" and i: "inert (clause_after T w x) x"
  let ?C = "takeWhile (\<lambda>c. c \<noteq> CHR ''.'') (drop (length T) x)"
  let ?C' = "takeWhile (\<lambda>c. c \<noteq> CHR ''.'') (drop (length T) x')"
  show "inert (clause_after T w x') x'"
    unfolding clause_inert_iff
  proof
    assume "starts_with True T x'"
    then have "starts_with True T x" using starts_with_ci_lowered[OF l] by simp
    then have "lower ?C = ?C" using i unfolding clause_inert_iff by simp
    moreover have "lowered ?C' ?C"
      by (rule lowered_takeWhile_period[OF lowered_drop[OF l]])
    ultimately have "?C' = ?C" by (rule lowered_fix[rotated])
    then show "lower ?C' = ?C'" using \<open>lower ?C = ?C\<close> by simp
  qed
qed

subsubsection \<open>Ages\<close>

lemma years_old_Some:
  "years_old w x = Some (k, r) \<longleftrightarrow>
     takeWhile is_digit x \<noteq> [] \<and>
     starts_with True ''-YEARS-old'' (drop (length (takeWhile is_digit x)) x) \<and>
     k = length (takeWhile is_digit x) + 10 \<and> r = takeWhile is_digit x @ ''-year-old''"
  by (auto simp: years_old_def Let_def)

lemma years_old_None:
  "years_old w x = None \<longleftrightarrow>
     \<not> (takeWhile is_digit x \<noteq> [] \<and>
        starts_with True ''-YEARS-old'' (drop (length (takeWhile is_digit x)) x))"
  by (auto simp: years_old_def Let_def)

lemma years_old_inert: "inert (years_old w x) x \<longleftrightarrow> years_old w x = None"
proof (cases "years_old w x")
  case None
  then show ?thesis by simp
next
  case (Some p)
  obtain k r where p: "p = (k, r)" by (cases p) auto
  have "r \<noteq> take k x" if "k \<le> length x"
  proof
    assume "r = take k x"
    then have "length r = k" using that by simp
    then show False using Some[unfolded p years_old_Some] by simp
  qed
  then show ?thesis using Some p by auto
qed

lemma years_old_lowered:
  assumes "lowered x' x"
  shows "(years_old w x' = None) = (years_old w x = None)"
  using lowered_takeWhile_digit[OF assms]
    starts_with_ci_lowered[OF lowered_drop[OF assms]]
  by (simp add: years_old_None)

lemma quiet_years_lowered:
  "lowered s' s \<Longrightarrow> quiet years_old w s \<Longrightarrow> quiet years_old w s'"
proof (rule quiet_lowered)
  fix w x x'
  assume "lowered x' x" "inert (years_old w x) x"
  then show "inert (years_old w x') x'"
    using years_old_lowered[of x' x w] by (simp add: years_old_inert)
qed

subsubsection \<open>SAE of\<close>

lemma sae_of_Some:
  "sae_of w x = Some (k, r) \<longleftrightarrow>
     (\<exists>c rest. x = ''SAE of '' @ c # rest \<and> is_upper c \<and> k = 8 \<and>
        r = ''SAE of '' @ [lower_char c])"
proof
  assume a: "sae_of w x = Some (k, r)"
  then have "starts_with False ''SAE of '' x"
    by (auto simp: sae_of_def split: if_splits)
  moreover have l: "length ''SAE of '' = 7" by simp
  ultimately have s: "take 7 x = ''SAE of ''" "7 \<le> length x"
    unfolding starts_with_def l by simp_all
  from a obtain c rest where d: "drop 7 x = c # rest" and u: "is_upper c"
    and kr: "k = 8" "r = ''SAE of '' @ [lower_char c]"
    by (auto simp: sae_of_def split: if_splits list.splits)
  have "x = take 7 x @ drop 7 x" by simp
  then have "x = ''SAE of '' @ c # rest" using s d by simp
  then show "\<exists>c rest. x = ''SAE of '' @ c # rest \<and> is_upper c \<and> k = 8 \<and>
        r = ''SAE of '' @ [lower_char c]"
    using u kr by blast
next
  assume "\<exists>c rest. x = ''SAE of '' @ c # rest \<and> is_upper c \<and> k = 8 \<and>
        r = ''SAE of '' @ [lower_char c]"
  then show "sae_of w x = Some (k, r)"
    by (auto simp: sae_of_def starts_with_def)
qed

lemma re_sub_sae_of_lowered: "lowered (re_sub sae_of w s) s"
proof (rule re_sub_lowered)
  fix w x k r
  assume "sae_of w x = Some (k, r)"
  then obtain c rest where "x = ''SAE of '' @ c # rest" "k = 8" "r = ''SAE of '' @ [lower_char c]"
    unfolding sae_of_Some by blast
  then show "0 < k \<and> k \<le> length x \<and> lowered r (take k x)"
    by (simp add: lowered_Cons)
qed


subsection \<open>What a substitution leaves in place\<close>

lemma hd_suffix_mem: "r = a @ b \<Longrightarrow> b \<noteq> [] \<Longrightarrow> hd b \<in> set r"
  by (cases b) auto

lemma hd_suffix_tl: "r = a @ b \<Longrightarrow> a \<noteq> [] \<Longrightarrow> b \<noteq> [] \<Longrightarrow> hd b \<in> set (tl r)"
  by (cases a; cases b) auto

lemma starts_with_ci_hd:
  "starts_with True p y \<Longrightarrow> p \<noteq> [] \<Longrightarrow> y \<noteq> [] \<and> lower_char (hd y) = lower_char (hd p)"
  by (cases p; cases y) (auto simp: starts_with_def lower_def)

lemma starts_with_cs_hd:
  "starts_with False p y \<Longrightarrow> p \<noteq> [] \<Longrightarrow> y \<noteq> [] \<and> hd y = hd p"
  by (cases p; cases y) (auto simp: starts_with_def)

lemma re_sub_None: "m w (c # cs) = None \<Longrightarrow> re_sub m w (c # cs) = c # re_sub m (is_word c) cs"
  by simp

lemma re_sub_Some:
  "m w (c # cs) = Some (k, r) \<Longrightarrow> 0 < k \<Longrightarrow>
   re_sub m w (c # cs) = r @ re_sub m (is_word (last (take k (c # cs)))) (drop k (c # cs))"
  by simp

lemma re_sub_hd:
  assumes "\<And>v x k r. m v x = Some (k, r) \<Longrightarrow> 0 < k \<and> r \<noteq> [] \<and> is_word (hd r) = is_word (hd x)"
  shows "(re_sub m w s = [] \<longleftrightarrow> s = []) \<and> is_word (hd (re_sub m w s)) = is_word (hd s)"
proof (cases s)
  case Nil
  then show ?thesis by simp
next
  case (Cons c cs)
  show ?thesis
  proof (cases "m w (c # cs)")
    case None
    then show ?thesis using Cons by simp
  next
    case (Some p)
    obtain k r where p: "p = (k, r)" by (cases p) auto
    from assms[OF Some[unfolded p]] have "0 < k" "r \<noteq> []" "is_word (hd r) = is_word c"
      by simp_all
    then show ?thesis using Cons Some p by simp
  qed
qed

lemma re_sub_word_boundary:
  assumes "\<And>v x k r. m v x = Some (k, r) \<Longrightarrow> 0 < k \<and> r \<noteq> [] \<and> is_word (hd r) = is_word (hd x)"
  shows "word_boundary v (re_sub m w s) = word_boundary v s"
  using re_sub_hd[of m w s, OF assms] unfolding word_boundary_def by simp

lemma re_sub_take:
  assumes "\<And>w x k r. m w x = Some (k, r) \<Longrightarrow> 0 < k \<and> n \<le> length r \<and> take n r = take n x"
  shows "j \<le> n \<Longrightarrow> take j (re_sub m w s) = take j s"
proof (induction "length s" arbitrary: s w j rule: less_induct)
  case less
  show ?case
  proof (cases s)
    case Nil
    then show ?thesis by simp
  next
    case (Cons c cs)
    show ?thesis
    proof (cases "m w (c # cs)")
      case None
      show ?thesis
      proof (cases j)
        case 0
        then show ?thesis by simp
      next
        case (Suc i)
        have "take i (re_sub m (is_word c) cs) = take i cs"
          using less.hyps[of cs i "is_word c"] less.prems Cons Suc by simp
        then show ?thesis using Cons None Suc by simp
      qed
    next
      case (Some p)
      obtain k r where p: "p = (k, r)" by (cases p) auto
      from assms[OF Some[unfolded p]] have k: "0 < k" and n: "n \<le> length r"
        and t: "take n r = take n (c # cs)"
        by simp_all
      have "take j (r @ re_sub m (is_word (last (take k (c # cs)))) (drop k (c # cs))) = take j r"
        using n less.prems by simp
      also have "\<dots> = take j (take n r)" using less.prems by (simp add: min_def)
      also have "\<dots> = take j (c # cs)" unfolding t using less.prems by (simp add: min_def)
      finally show ?thesis using Cons Some p k by simp
    qed
  qed
qed

text \<open>
  Where the result of a substitution starts with a literal none of whose characters can
  start a replacement, the text started with that literal and the substitution left it alone.
\<close>

lemma window_starts_with:
  assumes A: "\<And>v x k r. m v x = Some (k, r) \<Longrightarrow> r \<noteq> [] \<and> B (hd r)"
    and nb: "\<And>c. B c \<Longrightarrow> lower_char c \<notin> set (lower p)"
    and sw: "starts_with True p (re_sub m v x)"
  shows "starts_with True p x \<and>
         re_sub m v x = take (length p) x @
           re_sub m (if take (length p) x = [] then v else is_word (last (take (length p) x)))
             (drop (length p) x)"
proof -
  let ?n = "length p"
  let ?Y = "re_sub m v x"
  from sw have len: "?n \<le> length ?Y" and low: "lower (take ?n ?Y) = lower p"
    by (simp_all add: starts_with_def)
  have no: "\<not> (\<exists>q<?n. q < length ?Y \<and> B (?Y ! q))"
  proof
    assume "\<exists>q<?n. q < length ?Y \<and> B (?Y ! q)"
    then obtain q where q: "q < ?n" "q < length ?Y" "B (?Y ! q)" by blast
    have "lower (take ?n ?Y) ! q = lower_char (?Y ! q)" using q by (simp add: lower_def)
    then have "lower_char (?Y ! q) = lower p ! q" using low by simp
    moreover have "lower p ! q \<in> set (lower p)" using q(1) by simp
    ultimately show False using nb[OF q(3)] by simp
  qed
  have "?Y = take ?n x @ re_sub m (if take ?n x = [] then v else is_word (last (take ?n x))) (drop ?n x)
        \<or> (\<exists>q<?n. q < length ?Y \<and> B (?Y ! q))"
    by (rule re_sub_window) (rule A)
  with no have eq:
    "?Y = take ?n x @ re_sub m (if take ?n x = [] then v else is_word (last (take ?n x))) (drop ?n x)"
    by blast
  have "starts_with True p x"
  proof (cases "?n \<le> length x")
    case True
    have "take ?n ?Y = take ?n x" by (subst eq) (simp add: True)
    then show ?thesis using low True by (simp add: starts_with_def)
  next
    case False
    then have "?Y = x" using eq by simp
    then show ?thesis using sw by simp
  qed
  then show ?thesis using eq by blast
qed

lemma literal_ci_window:
  assumes A: "\<And>v x k r. m v x = Some (k, r) \<Longrightarrow>
                0 < k \<and> r \<noteq> [] \<and> B (hd r) \<and> is_word (hd r) = is_word (hd x)"
    and nb: "\<And>c. B c \<Longrightarrow> lower_char c \<notin> set (lower p)"
    and p: "p \<noteq> []"
    and n: "word_literal True p rep w x = None"
  shows "word_literal True p rep w (re_sub m w x) = None"
proof (rule ccontr)
  let ?n = "length p"
  let ?Y = "re_sub m w x"
  let ?v = "if take ?n x = [] then w else is_word (last (take ?n x))"
  assume "word_literal True p rep w ?Y \<noteq> None"
  then have a: "word_boundary w ?Y" and b: "starts_with True p ?Y"
    and c: "word_boundary (is_word (last (take ?n ?Y))) (drop ?n ?Y)"
    unfolding word_literal_None by simp_all
  have A1: "\<And>v x k r. m v x = Some (k, r) \<Longrightarrow> r \<noteq> [] \<and> B (hd r)" using A by blast
  have A2: "\<And>v x k r. m v x = Some (k, r) \<Longrightarrow> 0 < k \<and> r \<noteq> [] \<and> is_word (hd r) = is_word (hd x)"
    using A by blast
  from window_starts_with[where m = m and B = B and p = p and v = w and x = x, OF A1 nb b]
  have sx: "starts_with True p x" and eq: "?Y = take ?n x @ re_sub m ?v (drop ?n x)"
    by simp_all
  have len: "?n \<le> length x" using sx by (simp add: starts_with_def)
  have t: "take ?n ?Y = take ?n x" by (subst eq) (simp add: len)
  have d: "drop ?n ?Y = re_sub m ?v (drop ?n x)" by (subst eq) (simp add: len)
  have wb: "word_boundary u (re_sub m u' y) = word_boundary u y" for u u' y
    by (rule re_sub_word_boundary) (rule A2)
  have "word_boundary w x" using a wb by simp
  moreover have "word_boundary (is_word (last (take ?n x))) (drop ?n x)"
    using c wb unfolding t d by simp
  ultimately show False using n sx unfolding word_literal_None by simp
qed

subsection \<open>Each rule leaves its own result alone\<close>

subsubsection \<open>Rule 7\<close>

lemma is_upper_S: "is_upper CHR ''S''"
  by (simp add: is_upper_def upper_letters_def)

lemma quiet_sae_of: "quiet sae_of w (re_sub sae_of w s)"
proof (rule quiet_re_sub_self)
  fix w c cs
  assume n: "sae_of w (c # cs) = None"
  let ?R = "re_sub sae_of (is_word c) cs"
  show "inert (sae_of w (c # ?R)) (c # ?R)"
  proof (cases "sae_of w (c # ?R)")
    case None
    then show ?thesis by simp
  next
    case (Some p)
    obtain k r where p: "p = (k, r)" by (cases p) auto
    from Some obtain u rest where Y: "c # ?R = ''SAE of '' @ u # rest" and u: "is_upper u"
      unfolding p sae_of_Some by blast
    have t: "take 7 ?R = take 7 cs"
      by (rule re_sub_take[where n = 7]) (auto simp: sae_of_Some)
    from Y have c: "c = CHR ''S''" and R: "?R = ''AE of '' @ u # rest" by auto
    have "take 7 cs = ''AE of '' @ [u]" using t unfolding R by simp
    then have "cs = (''AE of '' @ [u]) @ drop 7 cs" using append_take_drop_id[of 7 cs] by simp
    then have "c # cs = ''SAE of '' @ u # drop 7 cs" using c by simp
    then have "sae_of w (c # cs) = Some (8, ''SAE of '' @ [lower_char u])"
      unfolding sae_of_Some using u by blast
    with n show ?thesis by simp
  qed
next
  fix w x k r a b
  assume m: "sae_of w x = Some (k, r)" and r: "r = a @ b" and b: "b \<noteq> []"
  let ?Z = "re_sub sae_of (is_word (last (take k x))) (drop k x)"
  from m obtain c rest where rr: "r = ''SAE of '' @ [lower_char c]"
    unfolding sae_of_Some by blast
  have "sae_of v (b @ ?Z) = None" for v
  proof (rule ccontr)
    assume "sae_of v (b @ ?Z) \<noteq> None"
    then obtain k' r' where "sae_of v (b @ ?Z) = Some (k', r')" by auto
    then obtain u rest' where Y: "b @ ?Z = ''SAE of '' @ u # rest'" and u: "is_upper u"
      unfolding sae_of_Some by blast
    show False
    proof (cases "a = []")
      case True
      then have "b = ''SAE of '' @ [lower_char c]" using r rr by simp
      then have "u = lower_char c" using Y by simp
      then show False using u lower_char_not_upper by simp
    next
      case False
      from hd_suffix_tl[OF r False b] have "hd b \<in> set (''AE of '' @ [lower_char c])"
        unfolding rr by simp
      moreover have "hd b = CHR ''S''" using Y b by (cases b) simp_all
      ultimately have "lower_char c = CHR ''S''" by simp
      then show False using lower_char_not_upper[of c] is_upper_S by simp
    qed
  qed
  then show "inert (sae_of (if a = [] then w else is_word (last a)) (b @ ?Z)) (b @ ?Z)"
    by simp
next
  fix w x k r
  assume "sae_of w x = Some (k, r)"
  then obtain c rest where "x = ''SAE of '' @ c # rest" "k = 8" "r = ''SAE of '' @ [lower_char c]"
    unfolding sae_of_Some by blast
  then show "0 < k \<and> r \<noteq> [] \<and> is_word (last r) = is_word (last (take k x))"
    by (simp add: is_word_lower_char)
qed

subsubsection \<open>Rule 6\<close>

lemma quiet_cs_literal:
  assumes low: "lowered rep p" and ne: "rep \<noteq> p" and p: "p \<noteq> []"
    and up: "list_all (\<lambda>c. \<not> is_lower c) p" and hd: "hd p \<notin> set (tl rep)"
  shows "quiet (word_literal False p rep) w (re_sub (word_literal False p rep) w s)"
proof (rule quiet_re_sub_self)
  fix w c cs
  assume n: "word_literal False p rep w (c # cs) = None"
  let ?R = "re_sub (word_literal False p rep) (is_word c) cs"
  have "lowered (c # ?R) (c # cs)"
    using re_sub_cs_literal_lowered[OF low p] by (simp add: lowered_Cons)
  from word_literal_cs_lowered[OF this up n]
  show "inert (word_literal False p rep w (c # ?R)) (c # ?R)" by simp
next
  fix w x k r a b
  assume m: "word_literal False p rep w x = Some (k, r)" and r: "r = a @ b" and b: "b \<noteq> []"
  let ?Z = "re_sub (word_literal False p rep) (is_word (last (take k x))) (drop k x)"
  from m have rr: "r = rep" by (simp add: word_literal_Some)
  have len: "length rep = length p" using lowered_length[OF low] .
  have "\<not> starts_with False p (b @ ?Z)"
  proof
    assume s: "starts_with False p (b @ ?Z)"
    show False
    proof (cases "a = []")
      case True
      then have "b = rep" using r rr by simp
      then have "take (length p) (b @ ?Z) = rep" using len by simp
      then show False using s ne by (simp add: starts_with_def)
    next
      case False
      from hd_suffix_tl[OF r False b] have "hd b \<in> set (tl rep)" unfolding rr .
      moreover have "hd (b @ ?Z) = hd p" using starts_with_cs_hd[OF s p] by simp
      ultimately show False using hd b by simp
    qed
  qed
  then have "word_literal False p rep v (b @ ?Z) = None" for v
    by (simp add: word_literal_None)
  then show "inert (word_literal False p rep (if a = [] then w else is_word (last a)) (b @ ?Z))
               (b @ ?Z)"
    by simp
next
  fix w x k r
  assume m: "word_literal False p rep w x = Some (k, r)"
  then have k: "k = length p" and r: "r = rep" and t: "take (length p) x = p"
    by (simp_all add: word_literal_Some starts_with_def)
  have "rep \<noteq> []" using lowered_length[OF low] p by auto
  moreover have "is_word (last rep) = is_word (last p)"
    using lowered_last_word[OF low] p by blast
  ultimately show "0 < k \<and> r \<noteq> [] \<and> is_word (last r) = is_word (last (take k x))"
    using k r t p by simp
qed


subsubsection \<open>Rule 1\<close>

lemma lower_eq_last_word:
  assumes "lower u = lower v"
  shows "is_word (last u) = is_word (last v)"
proof (cases "u = []")
  case True
  then have "v = []" using assms by (simp add: lower_def)
  then show ?thesis using True by simp
next
  case False
  then have v: "v \<noteq> []" using assms by (auto simp: lower_def)
  have "lower_char (last u) = last (lower u)" using False by (simp add: lower_def last_map)
  also have "\<dots> = lower_char (last v)" using v assms by (simp add: lower_def last_map)
  finally have "is_word (lower_char (last u)) = is_word (lower_char (last v))" by simp
  then show ?thesis by (simp add: is_word_lower_char)
qed

lemma starts_with_ci_hd_word:
  assumes "starts_with True p x" and "p \<noteq> []"
  shows "is_word (hd x) = is_word (hd p)"
proof -
  have "is_word (lower_char (hd x)) = is_word (lower_char (hd p))"
    using starts_with_ci_hd[OF assms] by simp
  then show ?thesis by (simp add: is_word_lower_char)
qed

lemma quiet_ci_literal:
  assumes p: "p \<noteq> []" and rep: "rep \<noteq> []" and len: "length rep \<noteq> length p"
    and ins: "\<And>c. c \<in> set rep \<Longrightarrow> lower_char c \<noteq> lower_char (hd p)"
    and nb: "lower_char (hd rep) \<notin> set (lower p)"
    and wl: "is_word (last rep) = is_word (last p)"
    and wh: "is_word (hd rep) = is_word (hd p)"
  shows "quiet (word_literal True p rep) w (re_sub (word_literal True p rep) w s)"
proof (rule quiet_re_sub_self)
  fix w c cs
  assume n: "word_literal True p rep w (c # cs) = None"
  have "word_literal True p rep w (re_sub (word_literal True p rep) w (c # cs)) = None"
  proof (rule literal_ci_window[where B = "\<lambda>c. c = hd rep"])
    fix v x k r
    assume "word_literal True p rep v x = Some (k, r)"
    then have "k = length p" "r = rep" "starts_with True p x"
      by (simp_all add: word_literal_Some)
    then show "0 < k \<and> r \<noteq> [] \<and> hd r = hd rep \<and> is_word (hd r) = is_word (hd x)"
      using p rep wh starts_with_ci_hd_word[of p x] by simp
  next
    fix c
    assume "c = hd rep"
    then show "lower_char c \<notin> set (lower p)" using nb by simp
  next
    show "p \<noteq> []" by (rule p)
  next
    show "word_literal True p rep w (c # cs) = None" by (rule n)
  qed
  then show "inert (word_literal True p rep w (c # re_sub (word_literal True p rep) (is_word c) cs))
               (c # re_sub (word_literal True p rep) (is_word c) cs)"
    using n by simp
next
  fix w x k r a b
  assume m: "word_literal True p rep w x = Some (k, r)" and r: "r = a @ b" and b: "b \<noteq> []"
  let ?Z = "re_sub (word_literal True p rep) (is_word (last (take k x))) (drop k x)"
  from m have rr: "r = rep" by (simp add: word_literal_Some)
  have "\<not> starts_with True p (b @ ?Z)"
  proof
    assume "starts_with True p (b @ ?Z)"
    from starts_with_ci_hd[OF this p] have "lower_char (hd b) = lower_char (hd p)"
      using b by simp
    moreover have "hd b \<in> set rep" using hd_suffix_mem[OF r b] rr by simp
    ultimately show False using ins by blast
  qed
  then have "word_literal True p rep v (b @ ?Z) = None" for v
    by (simp add: word_literal_None)
  then show "inert (word_literal True p rep (if a = [] then w else is_word (last a)) (b @ ?Z))
               (b @ ?Z)"
    by simp
next
  fix w x k r
  assume m: "word_literal True p rep w x = Some (k, r)"
  then have k: "k = length p" and r: "r = rep" and t: "lower (take (length p) x) = lower p"
    by (simp_all add: word_literal_Some starts_with_def)
  show "0 < k \<and> r \<noteq> [] \<and> is_word (last r) = is_word (last (take k x))"
    using k r p rep wl lower_eq_last_word[OF t] by simp
qed

subsubsection \<open>Rules 3 and 4\<close>

lemma takeWhile_append_stop:
  "list_all P u \<Longrightarrow> z = [] \<or> \<not> P (hd z) \<Longrightarrow> takeWhile P (u @ z) = u"
proof (induction u)
  case Nil
  then show ?case by (cases z) auto
next
  case (Cons a u)
  then show ?case by simp
qed

lemma clause_inert_lowered:
  assumes l: "lowered x' x" and i: "inert (clause_after T w x) x"
  shows "inert (clause_after T w x') x'"
proof -
  let ?C = "takeWhile (\<lambda>c. c \<noteq> CHR ''.'') (drop (length T) x)"
  let ?C' = "takeWhile (\<lambda>c. c \<noteq> CHR ''.'') (drop (length T) x')"
  show ?thesis
    unfolding clause_inert_iff
  proof
    assume "starts_with True T x'"
    then have "starts_with True T x" using starts_with_ci_lowered[OF l] by simp
    then have "lower ?C = ?C" using i unfolding clause_inert_iff by simp
    moreover have "lowered ?C' ?C"
      by (rule lowered_takeWhile_period[OF lowered_drop[OF l]])
    ultimately have "?C' = ?C" by (rule lowered_fix[rotated])
    then show "lower ?C' = ?C'" using \<open>lower ?C = ?C\<close> by simp
  qed
qed

lemma starts_with_period:
  assumes "T \<noteq> []" and "CHR ''.'' \<notin> set T"
  shows "\<not> starts_with True T (CHR ''.'' # rest)"
proof
  assume "starts_with True T (CHR ''.'' # rest)"
  from starts_with_ci_hd[OF this assms(1)] have "lower_char (hd T) = CHR ''.''"
    by (simp add: char_class_defs)
  then have "hd T = CHR ''.''" by (simp add: lower_char_period)
  then show False using assms by (cases T) auto
qed

lemma re_sub_clause_period:
  assumes T: "T \<noteq> []" and dot: "CHR ''.'' \<notin> set T" and s: "s = [] \<or> hd s = CHR ''.''"
  shows "re_sub (clause_after T) w s = [] \<or> hd (re_sub (clause_after T) w s) = CHR ''.''"
proof (cases s)
  case Nil
  then show ?thesis by simp
next
  case (Cons c cs)
  then have c: "c = CHR ''.''" using s by simp
  have "clause_after T w (CHR ''.'' # cs) = None"
    using starts_with_period[OF T dot] by (simp add: clause_after_None)
  then show ?thesis using Cons c by simp
qed

lemma lower_no_period:
  "list_all (\<lambda>c. c \<noteq> CHR ''.'') u \<Longrightarrow> list_all (\<lambda>c. c \<noteq> CHR ''.'') (lower u)"
  by (induction u) (simp_all add: lower_def lower_char_period)

lemma clause_after_suffix:
  assumes T: "T \<noteq> []" and dot: "CHR ''.'' \<notin> set T"
    and m: "clause_after T w x = Some (k, r)" and r: "r = a @ b" and b: "b \<noteq> []"
    and z: "z = [] \<or> hd z = CHR ''.''"
  shows "inert (clause_after T v (b @ z)) (b @ z)"
  unfolding clause_inert_iff
proof
  let ?np = "\<lambda>c. c \<noteq> CHR ''.''"
  let ?C = "takeWhile ?np (drop (length T) x)"
  let ?Tx = "take (length T) x"
  let ?n = "length a"
  assume sw: "starts_with True T (b @ z)"
  from clause_after_Some[OF m] have sx: "starts_with True T x" and C: "?C \<noteq> []"
    and rr: "r = ?Tx @ lower ?C"
    by simp_all
  have lT: "length ?Tx = length T" using sx by (simp add: starts_with_def)
  have bd: "b = drop ?n r" using r by simp
  have nr: "?n < length r" using r b by simp
  have lr: "length r = length T + length ?C" unfolding rr using lT by simp
  have lab: "length r = length a + length b" using r by simp
  have npC: "list_all ?np (lower ?C)"
    by (rule lower_no_period) (auto simp: list_all_iff dest: set_takeWhileD)
  show "lower (takeWhile ?np (drop (length T) (b @ z))) = takeWhile ?np (drop (length T) (b @ z))"
  proof (cases "?n \<le> length ?C")
    case True
    have "drop (length T) b = drop (length T + ?n) r" unfolding bd by (simp add: add.commute)
    also have "\<dots> = drop ?n (lower ?C)" unfolding rr using lT by simp
    finally have db: "drop (length T) b = drop ?n (lower ?C)" .
    have "length T \<le> length b" using lr lab True by arith
    then have "drop (length T) (b @ z) = drop ?n (lower ?C) @ z" using db by simp
    moreover have "list_all ?np (drop ?n (lower ?C))"
      using npC by (simp add: list_all_iff) (meson in_set_dropD)
    ultimately have "takeWhile ?np (drop (length T) (b @ z)) = drop ?n (lower ?C)"
      using takeWhile_append_stop[of ?np "drop ?n (lower ?C)" z] z by simp
    moreover have "lower (drop ?n (lower ?C)) = drop ?n (lower ?C)"
      by (simp add: lower_def drop_map lower_char_idem)
    ultimately show ?thesis by simp
  next
    case False
    have lb: "length b < length T" using lr lab False by arith
    have len: "length T \<le> length (b @ z)" and low: "lower (take (length T) (b @ z)) = lower T"
      using sw by (simp_all add: starts_with_def)
    from len lb have "z \<noteq> []" by auto
    with z obtain rest where zz: "z = CHR ''.'' # rest" by (cases z) auto
    define Y where "Y = b @ z"
    have yl: "Y ! length b = CHR ''.''" unfolding Y_def zz by simp
    have "lower (take (length T) Y) ! length b = lower_char (Y ! length b)"
      using lb len unfolding Y_def[symmetric] by (simp add: lower_def)
    then have "lower (take (length T) Y) ! length b = CHR ''.''"
      unfolding yl by (simp add: lower_char_period)
    then have "lower T ! length b = CHR ''.''" using low unfolding Y_def by simp
    then have "lower_char (T ! length b) = CHR ''.''" using lb by (simp add: lower_def)
    then have "T ! length b = CHR ''.''" by (simp add: lower_char_period)
    then show ?thesis using dot lb nth_mem by metis
  qed
qed

lemma clause_after_rest:
  assumes "clause_after T w x = Some (k, r)"
  shows "drop k x = [] \<or> hd (drop k x) = CHR ''.''"
proof -
  let ?np = "\<lambda>c. c \<noteq> CHR ''.''"
  from clause_after_Some[OF assms]
  have k: "k = length T + length (takeWhile ?np (drop (length T) x))" by simp
  have "drop k x = dropWhile ?np (drop (length T) x)"
    unfolding k dropWhile_eq_drop by (simp add: add.commute)
  then show ?thesis using hd_dropWhile[of ?np "drop (length T) x"] by auto
qed

lemma quiet_clause:
  assumes T: "T \<noteq> []" and dot: "CHR ''.'' \<notin> set T"
  shows "quiet (clause_after T) w (re_sub (clause_after T) w s)"
proof (rule quiet_re_sub_self)
  fix w c cs
  assume n: "clause_after T w (c # cs) = None"
  let ?R = "re_sub (clause_after T) (is_word c) cs"
  have "lowered (c # ?R) (c # cs)"
    using re_sub_clause_lowered by (simp add: lowered_Cons)
  then show "inert (clause_after T w (c # ?R)) (c # ?R)"
    by (rule clause_inert_lowered) (simp add: n)
next
  fix w x k r a b
  assume m: "clause_after T w x = Some (k, r)" and r: "r = a @ b" and b: "b \<noteq> []"
  let ?Z = "re_sub (clause_after T) (is_word (last (take k x))) (drop k x)"
  have "?Z = [] \<or> hd ?Z = CHR ''.''"
    by (rule re_sub_clause_period[OF T dot clause_after_rest[OF m]])
  from clause_after_suffix[OF T dot m r b this]
  show "inert (clause_after T (if a = [] then w else is_word (last a)) (b @ ?Z)) (b @ ?Z)" .
next
  fix w x k r
  assume m: "clause_after T w x = Some (k, r)"
  from clause_lowering[OF m] have k: "0 < k" "k \<le> length x" and l: "lowered r (take k x)"
    by simp_all
  have ne: "take k x \<noteq> []" using k by auto
  have "length (take k x) = k" using k by simp
  then have "length r = k" using lowered_length[OF l] by simp
  then have "r \<noteq> []" using k(1) by auto
  then show "0 < k \<and> r \<noteq> [] \<and> is_word (last r) = is_word (last (take k x))"
    using k lowered_last_word[OF l ne] by simp
qed


subsubsection \<open>Rule 5\<close>

lemma re_sub_ignores_w:
  assumes "\<And>w v x. m w x = m v x"
  shows "re_sub m w s = re_sub m v s"
proof (cases s)
  case Nil
  then show ?thesis by simp
next
  case (Cons c cs)
  have "m w (c # cs) = m v (c # cs)" by (rule assms)
  then show ?thesis using Cons by simp
qed

lemma re_sub_years_old_w: "re_sub years_old w s = re_sub years_old v s"
  by (rule re_sub_ignores_w) (simp add: years_old_def)

lemma lower_years_old: "lower ''-YEARS-old'' = ''-years-old''"
  by (simp add: lower_def char_class_defs)

lemma lower_year_old: "lower ''-year-old'' = ''-year-old''"
  by (simp add: lower_def char_class_defs)

lemma year_old_not_digit: "c \<in> set ''-year-old'' \<Longrightarrow> \<not> is_digit c"
  by (auto simp: is_digit_def digits_def)

lemma digit_not_lower_mem:
  assumes "is_digit c" and "list_all (\<lambda>x. \<not> is_digit x) p"
  shows "lower_char c \<notin> set (lower p)"
proof
  assume "lower_char c \<in> set (lower p)"
  then obtain x where x: "x \<in> set p" "lower_char c = lower_char x" by (auto simp: lower_def)
  have "is_digit (lower_char c)" using assms(1) by (simp add: is_digit_lower_char)
  then have "is_digit x" using x(2) by (simp add: is_digit_lower_char)
  then show False using assms(2) x(1) by (simp add: list_all_iff)
qed

lemma takeWhile_digits: "list_all is_digit (takeWhile is_digit x)"
  by (auto simp: list_all_iff dest: set_takeWhileD)

lemma years_old_facts:
  assumes "years_old w x = Some (k, r)"
  shows "0 < k \<and> k \<le> length x \<and> r \<noteq> [] \<and> is_digit (hd r) \<and> is_digit (hd x) \<and>
         is_word (last r) \<and> is_word (last (take k x))"
proof -
  let ?age = "takeWhile is_digit x"
  from assms have age: "?age \<noteq> []"
    and sw: "starts_with True ''-YEARS-old'' (drop (length ?age) x)"
    and k: "k = length ?age + 10" and r: "r = ?age @ ''-year-old''"
    unfolding years_old_Some by simp_all
  have l: "length ''-YEARS-old'' = 10" by simp
  from sw have l10: "10 \<le> length (drop (length ?age) x)"
    and low: "lower (take 10 (drop (length ?age) x)) = lower ''-YEARS-old''"
    unfolding starts_with_def l by simp_all
  have kx: "k \<le> length x" using l10 k by simp
  from age obtain c cs where x: "x = c # cs" and c: "is_digit c"
    by (cases x) (auto split: if_splits)
  have hr: "hd r = c" unfolding r x using c by simp
  have lr: "is_word (last r)" unfolding r by (simp add: char_class_defs)
  have t: "take k x = take (length ?age) x @ take 10 (drop (length ?age) x)"
    unfolding k by (simp add: take_add)
  have ne: "take 10 (drop (length ?age) x) \<noteq> []" using l10 by auto
  have "is_word (last (take 10 (drop (length ?age) x))) = is_word (last ''-YEARS-old'')"
    by (rule lower_eq_last_word[OF low])
  then have "is_word (last (take 10 (drop (length ?age) x)))" by (simp add: char_class_defs)
  then have "is_word (last (take k x))" unfolding t using ne by simp
  then show ?thesis using k kx r hr c x lr by simp
qed

lemma years_old_digit_run:
  "years_old w x = None \<Longrightarrow>
   re_sub years_old w x = takeWhile is_digit x @ re_sub years_old w (dropWhile is_digit x)"
proof (induction x)
  case Nil
  show ?case by simp
next
  case (Cons c cs)
  show ?case
  proof (cases "is_digit c")
    case False
    then show ?thesis by simp
  next
    case True
    have "years_old w cs = None"
      using Cons.prems True unfolding years_old_None by auto
    from Cons.IH[OF this] have
      "re_sub years_old w cs = takeWhile is_digit cs @ re_sub years_old w (dropWhile is_digit cs)" .
    moreover have "re_sub years_old (is_word c) cs = re_sub years_old w cs"
      by (rule re_sub_years_old_w)
    moreover have "re_sub years_old w (c # cs) = c # re_sub years_old (is_word c) cs"
      using Cons.prems by simp
    ultimately show ?thesis using True by simp
  qed
qed

lemma re_sub_years_nondigit:
  "s = [] \<or> \<not> is_digit (hd s) \<Longrightarrow>
   re_sub years_old w s = [] \<or> \<not> is_digit (hd (re_sub years_old w s))"
proof (cases s)
  case Nil
  then show ?thesis by simp
next
  case (Cons c cs)
  assume "s = [] \<or> \<not> is_digit (hd s)"
  then have "\<not> is_digit c" using Cons by simp
  then have "years_old w (c # cs) = None" by (simp add: years_old_None)
  then show ?thesis using Cons \<open>\<not> is_digit c\<close> by simp
qed

lemma years_old_window:
  assumes "starts_with True p (re_sub years_old v x)" and "list_all (\<lambda>x. \<not> is_digit x) p"
  shows "starts_with True p x \<and>
         re_sub years_old v x = take (length p) x @
           re_sub years_old (if take (length p) x = [] then v else is_word (last (take (length p) x)))
             (drop (length p) x)"
proof (rule window_starts_with[where B = is_digit])
  fix v x k r
  assume "years_old v x = Some (k, r)"
  then show "r \<noteq> [] \<and> is_digit (hd r)" using years_old_facts by blast
next
  fix c
  assume "is_digit c"
  then show "lower_char c \<notin> set (lower p)" using assms(2) by (rule digit_not_lower_mem)
next
  show "starts_with True p (re_sub years_old v x)" by (rule assms(1))
qed

lemma years_old_result:
  assumes "years_old w x = None"
  shows "years_old w (re_sub years_old w x) = None"
proof -
  let ?D = "takeWhile is_digit x"
  let ?rest = "dropWhile is_digit x"
  let ?Z = "re_sub years_old w ?rest"
  have Y: "re_sub years_old w x = ?D @ ?Z" by (rule years_old_digit_run[OF assms])
  have "?rest = [] \<or> \<not> is_digit (hd ?rest)" using hd_dropWhile[of is_digit x] by auto
  then have zn: "?Z = [] \<or> \<not> is_digit (hd ?Z)" by (rule re_sub_years_nondigit)
  have tw: "takeWhile is_digit (?D @ ?Z) = ?D"
    by (rule takeWhile_append_stop[OF takeWhile_digits zn])
  have dr: "drop (length ?D) (?D @ ?Z) = ?Z" by simp
  have "\<not> (?D \<noteq> [] \<and> starts_with True ''-YEARS-old'' ?Z)"
  proof
    assume a: "?D \<noteq> [] \<and> starts_with True ''-YEARS-old'' ?Z"
    have "list_all (\<lambda>x. \<not> is_digit x) ''-YEARS-old''" by (simp add: is_digit_def digits_def)
    with a have "starts_with True ''-YEARS-old'' ?rest" using years_old_window by blast
    then have "starts_with True ''-YEARS-old'' (drop (length ?D) x)"
      by (simp add: dropWhile_eq_drop)
    then have "years_old w x \<noteq> None" using a unfolding years_old_None by simp
    then show False using assms by simp
  qed
  then show ?thesis unfolding Y years_old_None tw dr .
qed

lemma years_old_suffix_cases:
  assumes m: "years_old w x = Some (k, r)" and r: "r = a @ b" and b: "b \<noteq> []"
  shows "(\<exists>us. us \<noteq> [] \<and> list_all is_digit us \<and> b = us @ ''-year-old'') \<or>
         b \<in> set [''-year-old'', ''year-old'', ''ear-old'', ''ar-old'', ''r-old'', ''-old'',
                  ''old'', ''ld'', ''d'']"
proof -
  let ?age = "takeWhile is_digit x"
  from m have rr: "r = ?age @ ''-year-old''" unfolding years_old_Some by simp
  from r rr have "a @ b = ?age @ ''-year-old''" by simp
  then obtain us where "(a = ?age @ us \<and> us @ b = ''-year-old'') \<or>
      (a @ us = ?age \<and> b = us @ ''-year-old'')"
    unfolding append_eq_append_conv2 by blast
  then show ?thesis
  proof
    assume "a = ?age @ us \<and> us @ b = ''-year-old''"
    then have "us @ b = ''-year-old''" by simp
    then have "b \<in> set [''-year-old'', ''year-old'', ''ear-old'', ''ar-old'', ''r-old'', ''-old'',
                  ''old'', ''ld'', ''d'']"
      using b by (auto simp: append_eq_Cons_conv)
    then show ?thesis by blast
  next
    assume u: "a @ us = ?age \<and> b = us @ ''-year-old''"
    show ?thesis
    proof (cases "us = []")
      case True
      then show ?thesis using u by simp
    next
      case False
      have "set us \<subseteq> set ?age" using u by (metis set_append sup_ge2)
      then have "list_all is_digit us" using takeWhile_digits[of x] by (auto simp: list_all_iff)
      then show ?thesis using False u by blast
    qed
  qed
qed

lemma years_old_suffix:
  assumes m: "years_old w x = Some (k, r)" and r: "r = a @ b" and b: "b \<noteq> []"
  shows "years_old v (b @ z) = None"
proof -
  from years_old_suffix_cases[OF m r b] show ?thesis
  proof
    assume "\<exists>us. us \<noteq> [] \<and> list_all is_digit us \<and> b = us @ ''-year-old''"
    then obtain us where us: "list_all is_digit us" and bb: "b = us @ ''-year-old''" by blast
    have "takeWhile is_digit (us @ (''-year-old'' @ z)) = us"
      by (rule takeWhile_append_stop[OF us]) (simp add: is_digit_def digits_def)
    then have tw: "takeWhile is_digit (b @ z) = us" unfolding bb by simp
    have dr: "drop (length us) (b @ z) = ''-year-old'' @ z" unfolding bb by simp
    have "\<not> starts_with True ''-YEARS-old'' (''-year-old'' @ z)"
      by (simp add: starts_with_def lower_def char_class_defs)
    then show ?thesis unfolding years_old_None tw dr by simp
  next
    assume "b \<in> set [''-year-old'', ''year-old'', ''ear-old'', ''ar-old'', ''r-old'', ''-old'',
                  ''old'', ''ld'', ''d'']"
    then have "hd b \<in> set ''-year-old''" by auto
    then have "\<not> is_digit (hd b)" by (rule year_old_not_digit)
    then have "takeWhile is_digit (b @ z) = []" using b by (cases b) simp_all
    then show ?thesis unfolding years_old_None by simp
  qed
qed

lemma quiet_years_old: "quiet years_old w (re_sub years_old w s)"
proof (rule quiet_re_sub_self)
  fix w c cs
  assume n: "years_old w (c # cs) = None"
  from years_old_result[OF n]
  show "inert (years_old w (c # re_sub years_old (is_word c) cs))
          (c # re_sub years_old (is_word c) cs)"
    using n by simp
next
  fix w x k r a b
  assume m: "years_old w x = Some (k, r)" and r: "r = a @ b" and b: "b \<noteq> []"
  let ?Z = "re_sub years_old (is_word (last (take k x))) (drop k x)"
  from years_old_suffix[OF m r b]
  show "inert (years_old (if a = [] then w else is_word (last a)) (b @ ?Z)) (b @ ?Z)"
    by simp
next
  fix w x k r
  assume "years_old w x = Some (k, r)"
  from years_old_facts[OF this]
  show "0 < k \<and> r \<noteq> [] \<and> is_word (last r) = is_word (last (take k x))" by simp
qed

subsection \<open>A later rule leaves an earlier rule's result alone\<close>

subsubsection \<open>Rule 5 after rules 1, 3 and 4\<close>

lemma years_old_suffix_starts:
  assumes m: "years_old w x = Some (k, r)" and r: "r = a @ b" and b: "b \<noteq> []"
    and p: "p \<noteq> []" and nd: "list_all (\<lambda>x. \<not> is_digit x) p"
    and suf: "\<And>b z. b \<in> set [''-year-old'', ''year-old'', ''ear-old'', ''ar-old'', ''r-old'',
                 ''-old'', ''old'', ''ld'', ''d''] \<Longrightarrow> \<not> starts_with True p (b @ z)"
  shows "\<not> starts_with True p (b @ z)"
proof
  assume sw: "starts_with True p (b @ z)"
  from years_old_suffix_cases[OF m r b] show False
  proof
    assume "\<exists>us. us \<noteq> [] \<and> list_all is_digit us \<and> b = us @ ''-year-old''"
    then obtain us where us: "us \<noteq> []" "list_all is_digit us" and bb: "b = us @ ''-year-old''"
      by blast
    have "is_digit (hd b)" unfolding bb using us by (cases us) simp_all
    moreover have "lower_char (hd b) = lower_char (hd p)"
      using starts_with_ci_hd[OF sw p] b by simp
    ultimately have "is_digit (lower_char (hd p))" by (simp add: lower_char_digit)
    then have "is_digit (hd p)" by (simp add: is_digit_lower_char)
    then show False using nd p by (cases p) simp_all
  next
    assume "b \<in> set [''-year-old'', ''year-old'', ''ear-old'', ''ar-old'', ''r-old'', ''-old'',
                  ''old'', ''ld'', ''d'']"
    from suf[OF this] show False using sw by simp
  qed
qed

lemma quiet_ci_literal_years_old:
  assumes p: "p \<noteq> []" and nd: "list_all (\<lambda>x. \<not> is_digit x) p"
    and len: "length rep \<noteq> length p"
    and suf: "\<And>b z. b \<in> set [''-year-old'', ''year-old'', ''ear-old'', ''ar-old'', ''r-old'',
                 ''-old'', ''old'', ''ld'', ''d''] \<Longrightarrow> \<not> starts_with True p (b @ z)"
  shows "quiet (word_literal True p rep) w s \<Longrightarrow>
         quiet (word_literal True p rep) w (re_sub years_old w s)"
proof (rule quiet_re_sub_other)
  fix w c cs
  assume i: "inert (word_literal True p rep w (c # cs)) (c # cs)"
    and n: "years_old w (c # cs) = None"
  from i have n1: "word_literal True p rep w (c # cs) = None"
    by (simp add: word_literal_ci_inert[OF len])
  have "word_literal True p rep w (re_sub years_old w (c # cs)) = None"
  proof (rule literal_ci_window[where B = is_digit])
    fix v x k r
    assume "years_old v x = Some (k, r)"
    from years_old_facts[OF this]
    show "0 < k \<and> r \<noteq> [] \<and> is_digit (hd r) \<and> is_word (hd r) = is_word (hd x)"
      by (simp add: is_digit_word)
  next
    fix c
    assume "is_digit c"
    then show "lower_char c \<notin> set (lower p)" using nd by (rule digit_not_lower_mem)
  next
    show "p \<noteq> []" by (rule p)
  next
    show "word_literal True p rep w (c # cs) = None" by (rule n1)
  qed
  then show "inert (word_literal True p rep w (c # re_sub years_old (is_word c) cs))
               (c # re_sub years_old (is_word c) cs)"
    using n by simp
next
  fix w x k r a b
  assume m: "years_old w x = Some (k, r)" and r: "r = a @ b" and b: "b \<noteq> []"
  let ?Z = "re_sub years_old (is_word (last (take k x))) (drop k x)"
  have "\<not> starts_with True p (b @ ?Z)"
    by (rule years_old_suffix_starts[OF m r b p nd suf])
  then have "word_literal True p rep v (b @ ?Z) = None" for v
    by (simp add: word_literal_None)
  then show "inert (word_literal True p rep (if a = [] then w else is_word (last a)) (b @ ?Z))
               (b @ ?Z)"
    by simp
next
  fix w x k r
  assume "years_old w x = Some (k, r)"
  from years_old_facts[OF this]
  show "0 < k \<and> k \<le> length x \<and> r \<noteq> [] \<and> is_word (last r) = is_word (last (take k x))"
    by simp
qed (assumption)


lemma period_in_lower: "CHR ''.'' \<in> set (lower u) \<longleftrightarrow> CHR ''.'' \<in> set u"
proof (induction u)
  case Nil
  show ?case by (simp add: lower_def)
next
  case (Cons a u)
  have "CHR ''.'' = lower_char a \<longleftrightarrow> CHR ''.'' = a" using lower_char_period[of a] by auto
  then show ?case using Cons by (simp add: lower_def)
qed

lemma drop_length_append: "length u = n \<Longrightarrow> drop n (u @ z) = z"
  by simp

lemma lower_eq_no_period:
  assumes "lower u = lower v" and "CHR ''.'' \<notin> set v"
  shows "CHR ''.'' \<notin> set u"
  using assms period_in_lower[of u] period_in_lower[of v] by simp

lemma lower_digits: "list_all is_digit u \<Longrightarrow> lower u = u"
  by (induction u) (simp_all add: lower_def lower_char_digit)

text \<open>A substitution whose matches and replacements hold no period and whose replacements
  hold no capital letter keeps the text up to the first period free of capital letters.\<close>

lemma re_sub_clause_lower:
  assumes A: "\<And>w x k r. m w x = Some (k, r) \<Longrightarrow>
                0 < k \<and> k \<le> length x \<and> CHR ''.'' \<notin> set (take k x) \<and> CHR ''.'' \<notin> set r \<and>
                lower r = r"
  shows "lower (takeWhile (\<lambda>c. c \<noteq> CHR ''.'') s) = takeWhile (\<lambda>c. c \<noteq> CHR ''.'') s \<Longrightarrow>
         lower (takeWhile (\<lambda>c. c \<noteq> CHR ''.'') (re_sub m w s)) =
           takeWhile (\<lambda>c. c \<noteq> CHR ''.'') (re_sub m w s)"
proof (induction "length s" arbitrary: s w rule: less_induct)
  case less
  let ?np = "\<lambda>c. c \<noteq> CHR ''.''"
  show ?case
  proof (cases s)
    case Nil
    then show ?thesis by (simp add: lower_def)
  next
    case (Cons c cs)
    show ?thesis
    proof (cases "m w (c # cs)")
      case None
      show ?thesis
      proof (cases "c = CHR ''.''")
        case True
        then show ?thesis using Cons None by (simp add: lower_def)
      next
        case False
        from less.prems have c: "lower_char c = c"
          and cs: "lower (takeWhile ?np cs) = takeWhile ?np cs"
          using Cons False by (simp_all add: lower_def)
        have "lower (takeWhile ?np (re_sub m (is_word c) cs)) =
                takeWhile ?np (re_sub m (is_word c) cs)"
          using less.hyps[of cs "is_word c"] cs Cons by simp
        then show ?thesis using Cons None False c by (simp add: lower_def)
      qed
    next
      case (Some p)
      obtain k r where p: "p = (k, r)" by (cases p) auto
      from A[OF Some[unfolded p]] have k: "0 < k" "k \<le> length s"
        and tk: "CHR ''.'' \<notin> set (take k s)" and rn: "CHR ''.'' \<notin> set r" and lr: "lower r = r"
        using Cons by simp_all
      let ?Z = "re_sub m (is_word (last (take k s))) (drop k s)"
      have "takeWhile ?np (take k s @ drop k s) = take k s @ takeWhile ?np (drop k s)"
        by (rule takeWhile_append2) (use tk in auto)
      then have tw: "takeWhile ?np s = take k s @ takeWhile ?np (drop k s)" by simp
      have "lower (take k s) @ lower (takeWhile ?np (drop k s)) =
              take k s @ takeWhile ?np (drop k s)"
        using less.prems unfolding tw by (simp add: lower_def)
      then have d: "lower (takeWhile ?np (drop k s)) = takeWhile ?np (drop k s)"
        by (simp add: append_eq_append_conv)
      have "length (drop k s) < length s" using k Cons by simp
      from less.hyps[OF this d]
      have z: "lower (takeWhile ?np ?Z) = takeWhile ?np ?Z" .
      have "takeWhile ?np (r @ ?Z) = r @ takeWhile ?np ?Z"
        by (rule takeWhile_append2) (use rn in auto)
      then have "lower (takeWhile ?np (r @ ?Z)) = takeWhile ?np (r @ ?Z)"
        using z lr by (simp add: lower_def)
      moreover have "re_sub m w s = r @ ?Z" using Cons Some p k by simp
      ultimately show ?thesis by simp
    qed
  qed
qed

lemma years_old_clause_lower:
  assumes "lower (takeWhile (\<lambda>c. c \<noteq> CHR ''.'') s) = takeWhile (\<lambda>c. c \<noteq> CHR ''.'') s"
  shows "lower (takeWhile (\<lambda>c. c \<noteq> CHR ''.'') (re_sub years_old w s)) =
           takeWhile (\<lambda>c. c \<noteq> CHR ''.'') (re_sub years_old w s)"
proof (rule re_sub_clause_lower[OF _ assms])
  fix w x k r
  assume m: "years_old w x = Some (k, r)"
  let ?age = "takeWhile is_digit x"
  from m have sw: "starts_with True ''-YEARS-old'' (drop (length ?age) x)"
    and k: "k = length ?age + 10" and r: "r = ?age @ ''-year-old''"
    unfolding years_old_Some by simp_all
  have l: "length ''-YEARS-old'' = 10" by simp
  from sw have low: "lower (take 10 (drop (length ?age) x)) = lower ''-YEARS-old''"
    unfolding starts_with_def l by simp
  have "CHR ''.'' \<notin> set ''-YEARS-old''" by simp
  with low have t10: "CHR ''.'' \<notin> set (take 10 (drop (length ?age) x))"
    by (rule lower_eq_no_period)
  have dg: "list_all is_digit ?age" by (rule takeWhile_digits)
  have "\<not> is_digit CHR ''.''" by (simp add: is_digit_def digits_def)
  then have ag: "CHR ''.'' \<notin> set ?age" using dg by (auto simp: list_all_iff)
  have "take (length ?age) x = ?age" using takeWhile_eq_take[of is_digit x] by simp
  then have t: "take k x = ?age @ take 10 (drop (length ?age) x)"
    unfolding k by (simp add: take_add)
  have "CHR ''.'' \<notin> set (take k x)" unfolding t using ag t10 by simp
  moreover have "CHR ''.'' \<notin> set r" unfolding r using ag by simp
  moreover have "lower r = r"
    unfolding r lower_append lower_digits[OF dg] lower_year_old by simp
  ultimately show "0 < k \<and> k \<le> length x \<and> CHR ''.'' \<notin> set (take k x) \<and> CHR ''.'' \<notin> set r \<and>
                lower r = r"
    using years_old_facts[OF m] by simp
qed

lemma quiet_clause_years_old:
  assumes T: "T \<noteq> []" and nd: "list_all (\<lambda>x. \<not> is_digit x) T"
    and suf: "\<And>b z. b \<in> set [''-year-old'', ''year-old'', ''ear-old'', ''ar-old'', ''r-old'',
                 ''-old'', ''old'', ''ld'', ''d''] \<Longrightarrow> \<not> starts_with True T (b @ z)"
  shows "quiet (clause_after T) w s \<Longrightarrow> quiet (clause_after T) w (re_sub years_old w s)"
proof (rule quiet_re_sub_other)
  fix w c cs
  assume i: "inert (clause_after T w (c # cs)) (c # cs)"
    and n: "years_old w (c # cs) = None"
  let ?x = "c # cs"
  let ?Y = "re_sub years_old w ?x"
  let ?np = "\<lambda>c. c \<noteq> CHR ''.''"
  have "inert (clause_after T w ?Y) ?Y"
    unfolding clause_inert_iff
  proof
    assume sw: "starts_with True T ?Y"
    from years_old_window[OF sw nd] have sx: "starts_with True T ?x"
      and eq: "?Y = take (length T) ?x @
           re_sub years_old (if take (length T) ?x = [] then w
              else is_word (last (take (length T) ?x))) (drop (length T) ?x)"
      by blast+
    have len: "length T \<le> length ?x" using sx by (simp add: starts_with_def)
    have lt: "length (take (length T) ?x) = length T" using len by simp
    have d: "drop (length T) ?Y =
        re_sub years_old (if take (length T) ?x = [] then w
              else is_word (last (take (length T) ?x))) (drop (length T) ?x)"
      by (subst eq) (rule drop_length_append[OF lt])
    have "lower (takeWhile ?np (drop (length T) ?x)) = takeWhile ?np (drop (length T) ?x)"
      using i sx unfolding clause_inert_iff by simp
    then show "lower (takeWhile ?np (drop (length T) ?Y)) = takeWhile ?np (drop (length T) ?Y)"
      unfolding d by (rule years_old_clause_lower)
  qed
  then show "inert (clause_after T w (c # re_sub years_old (is_word c) cs))
               (c # re_sub years_old (is_word c) cs)"
    using n by simp
next
  fix w x k r a b
  assume m: "years_old w x = Some (k, r)" and r: "r = a @ b" and b: "b \<noteq> []"
  let ?Z = "re_sub years_old (is_word (last (take k x))) (drop k x)"
  have "\<not> starts_with True T (b @ ?Z)"
    by (rule years_old_suffix_starts[OF m r b T nd suf])
  then show "inert (clause_after T (if a = [] then w else is_word (last a)) (b @ ?Z)) (b @ ?Z)"
    unfolding clause_inert_iff by simp
next
  fix w x k r
  assume "years_old w x = Some (k, r)"
  from years_old_facts[OF this]
  show "0 < k \<and> k \<le> length x \<and> r \<noteq> [] \<and> is_word (last r) = is_word (last (take k x))"
    by simp
qed (assumption)

subsubsection \<open>Rule 2 after rule 1\<close>

lemma dec_nat_nonempty: "dec_nat n \<noteq> []"
  by (subst dec_nat.simps) simp

lemma month_name_not_l:
  assumes "1 \<le> m" "m \<le> 12"
  shows "\<exists>a b c. month_names ! (m - 1) = [a, b, c] \<and> lower_char a \<noteq> CHR ''l'' \<and>
           lower_char b \<noteq> CHR ''l''"
proof -
  from assms have "m = 1 \<or> m = 2 \<or> m = 3 \<or> m = 4 \<or> m = 5 \<or> m = 6 \<or> m = 7 \<or> m = 8 \<or>
      m = 9 \<or> m = 10 \<or> m = 11 \<or> m = 12"
    by arith
  then show ?thesis
    by (elim disjE) (simp_all add: month_names_def char_class_defs)
qed

lemma strftime_letters:
  assumes "valid_date d"
  shows "\<exists>a b m1 m2 m3 ys. strftime d = a # b # CHR ''-'' # m1 # m2 # m3 # CHR ''-'' # ys \<and>
           is_digit a \<and> is_digit b \<and> lower_char m1 \<noteq> CHR ''l'' \<and> lower_char m2 \<noteq> CHR ''l'' \<and>
           ys \<noteq> [] \<and> list_all is_digit ys"
proof -
  obtain y m dd where d: "d = (y, m, dd)" by (cases d) auto
  with assms have v: "1 \<le> m" "m \<le> 12" "1 \<le> dd" "dd \<le> 31"
    using days_in_month_le[of y m] by (auto simp: valid_date_def)
  from day_shape[OF v(3,4)] obtain a b where
    ab: "(if dd < 10 then CHR ''0'' # dec_nat dd else dec_nat dd) = [a, b]" "is_digit a" "is_digit b"
    by blast
  from month_name_not_l[OF v(1,2)] obtain m1 m2 m3 where
    mm: "month_names ! (m - 1) = [m1, m2, m3]" "lower_char m1 \<noteq> CHR ''l''"
        "lower_char m2 \<noteq> CHR ''l''"
    by blast
  have "strftime d = a # b # CHR ''-'' # m1 # m2 # m3 # CHR ''-'' # dec_nat y"
    using ab(1) mm(1) by (simp add: strftime_def d)
  then show ?thesis using ab mm dec_nat_digits[of y] dec_nat_nonempty[of y] by blast
qed

lemma strptime_ymd_valid: "strptime_ymd s = Some d \<Longrightarrow> valid_date d"
  by (auto simp: strptime_ymd_def split: option.splits if_splits prod.splits)

lemma digit_lower_not_l: "is_digit c \<Longrightarrow> lower_char c \<noteq> CHR ''l''"
proof
  assume "is_digit c" and "lower_char c = CHR ''l''"
  then have "c = CHR ''l''" by (simp add: lower_char_digit)
  then show False using \<open>is_digit c\<close> by (simp add: is_digit_def digits_def)
qed

lemma hyphen_lower: "lower_char CHR ''-'' = CHR ''-''"
  by (simp add: char_class_defs)

lemma iso_date_facts:
  assumes "iso_date w x = Some (k, r)"
  shows "k = 10 \<and> 10 \<le> length x \<and> iso_shaped (take 10 x) \<and> r = date_repl (take 10 x) \<and>
         is_digit (hd x)"
proof -
  from assms have k: "k = 10" "r = date_repl (take 10 x)" and sh: "iso_shaped (take 10 x)"
    by (auto simp: iso_date_def split: if_splits)
  from sh obtain a rest where "x = a # rest" "is_digit a" "10 \<le> length x"
    unfolding iso_shaped_take_iff by auto
  then show ?thesis using k sh by simp
qed

text \<open>What a suffix of a rewritten date can start with.\<close>

lemma date_repl_suffix:
  assumes sh: "iso_shaped raw" and r: "date_repl raw = a @ b" and b: "b \<noteq> []"
  shows "lower_char (hd b) \<noteq> CHR ''l'' \<or> (\<exists>c rest. b = c # CHR ''-'' # rest)"
proof (cases "strptime_ymd raw")
  case None
  then have "raw = a @ b" using r by (simp add: date_repl_def)
  from hd_suffix_mem[OF this b] have "is_digit (hd b) \<or> hd b = CHR ''-''"
    using sh unfolding iso_shaped_iff by auto
  then show ?thesis using digit_lower_not_l hyphen_lower by auto
next
  case (Some d)
  then have rr: "strftime d = a @ b" using r by (simp add: date_repl_def)
  from strftime_letters[OF strptime_ymd_valid[OF Some]] obtain d1 d2 m1 m2 m3 ys where
    s: "strftime d = d1 # d2 # CHR ''-'' # m1 # m2 # m3 # CHR ''-'' # ys" and
    p: "is_digit d1" "is_digit d2" "lower_char m1 \<noteq> CHR ''l''" "lower_char m2 \<noteq> CHR ''l''"
       "list_all is_digit ys"
    by blast
  let ?n = "length a"
  have bd: "b = drop ?n (d1 # d2 # CHR ''-'' # m1 # m2 # m3 # CHR ''-'' # ys)"
    using rr unfolding s[symmetric] by simp
  have "?n = 0 \<or> ?n = 1 \<or> ?n = 2 \<or> ?n = 3 \<or> ?n = 4 \<or> ?n = 5 \<or> ?n = 6 \<or> 7 \<le> ?n" by arith
  then show ?thesis
  proof (elim disjE)
    assume "7 \<le> ?n"
    then obtain j where n: "?n = 7 + j" using le_Suc_ex by blast
    have "b = drop j ys" unfolding bd n by (simp add: numeral_eq_Suc)
    then have "hd b \<in> set ys" using b by (metis hd_in_set in_set_dropD)
    then have "is_digit (hd b)" using p(5) by (simp add: list_all_iff)
    then show ?thesis using digit_lower_not_l by blast
  qed (use bd p digit_lower_not_l hyphen_lower in \<open>auto\<close>)
qed

lemma starts_with_last_dose:
  assumes "starts_with True ''last dose'' y"
  shows "\<exists>c1 c2 rest. y = c1 # c2 # rest \<and> lower_char c1 = CHR ''l'' \<and> lower_char c2 = CHR ''a''"
proof -
  have l: "length ''last dose'' = 9" by simp
  from assms have len: "9 \<le> length y" and low: "lower (take 9 y) = lower ''last dose''"
    unfolding starts_with_def l by simp_all
  from len obtain c1 c2 rest where y: "y = c1 # c2 # rest"
    by (cases y; cases "tl y") auto
  from low show ?thesis unfolding y by (simp add: lower_def char_class_defs)
qed

lemma quiet_last_dose_iso_date:
  assumes len: "length rep \<noteq> 9"
  shows "quiet (word_literal True ''last dose'' rep) w s \<Longrightarrow>
         quiet (word_literal True ''last dose'' rep) w (re_sub iso_date w s)"
proof (rule quiet_re_sub_other)
  fix w c cs
  assume i: "inert (word_literal True ''last dose'' rep w (c # cs)) (c # cs)"
    and n: "iso_date w (c # cs) = None"
  have len': "length rep \<noteq> length ''last dose''" using len by simp
  from i have n1: "word_literal True ''last dose'' rep w (c # cs) = None"
    by (simp only: word_literal_ci_inert[OF len'])
  have "word_literal True ''last dose'' rep w (re_sub iso_date w (c # cs)) = None"
  proof (rule literal_ci_window[where B = is_digit])
    fix v x k r
    assume m: "iso_date v x = Some (k, r)"
    from iso_date_facts[OF m] have k: "k = 10" and sh: "iso_shaped (take 10 x)"
      and r: "r = date_repl (take 10 x)" and hx: "is_digit (hd x)"
      by simp_all
    have "r \<noteq> [] \<and> is_digit (hd r)"
    proof (cases "strptime_ymd (take 10 x)")
      case None
      then have "r = take 10 x" using r by (simp add: date_repl_def)
      then show ?thesis using sh hx unfolding iso_shaped_iff by auto
    next
      case (Some d)
      then have "r = strftime d" using r by (simp add: date_repl_def)
      then show ?thesis using strftime_letters[OF strptime_ymd_valid[OF Some]] by auto
    qed
    then show "0 < k \<and> r \<noteq> [] \<and> is_digit (hd r) \<and> is_word (hd r) = is_word (hd x)"
      using k hx by (simp add: is_digit_word)
  next
    fix c
    assume "is_digit c"
    moreover have "list_all (\<lambda>x. \<not> is_digit x) ''last dose''"
      by (simp add: is_digit_def digits_def)
    ultimately show "lower_char c \<notin> set (lower ''last dose'')" by (rule digit_not_lower_mem)
  next
    show "''last dose'' \<noteq> []" by simp
  next
    show "word_literal True ''last dose'' rep w (c # cs) = None" by (rule n1)
  qed
  then show "inert (word_literal True ''last dose'' rep w (c # re_sub iso_date (is_word c) cs))
               (c # re_sub iso_date (is_word c) cs)"
    using n by simp
next
  fix w x k r a b
  assume m: "iso_date w x = Some (k, r)" and r: "r = a @ b" and b: "b \<noteq> []"
  let ?Z = "re_sub iso_date (is_word (last (take k x))) (drop k x)"
  from iso_date_facts[OF m] have sh: "iso_shaped (take 10 x)"
    and rr: "date_repl (take 10 x) = a @ b"
    using r by simp_all
  have "\<not> starts_with True ''last dose'' (b @ ?Z)"
  proof
    assume "starts_with True ''last dose'' (b @ ?Z)"
    from starts_with_last_dose[OF this] obtain c1 c2 rest where
      y: "b @ ?Z = c1 # c2 # rest" and c: "lower_char c1 = CHR ''l''" "lower_char c2 = CHR ''a''"
      by blast
    from y b have h: "hd b = c1" by (cases b) simp_all
    from date_repl_suffix[OF sh rr b] h c(1) obtain c' rest' where "b = c' # CHR ''-'' # rest'"
      by auto
    then have "c2 = CHR ''-''" using y by simp
    then show False using c(2) hyphen_lower by simp
  qed
  then have "word_literal True ''last dose'' rep v (b @ ?Z) = None" for v
    by (simp add: word_literal_None)
  then show "inert (word_literal True ''last dose'' rep (if a = [] then w else is_word (last a))
               (b @ ?Z)) (b @ ?Z)"
    by simp
next
  fix w x k r
  assume m: "iso_date w x = Some (k, r)"
  from iso_date_Some[OF m] have k: "k = 10" "10 \<le> length x" and r: "r = date_repl (take 10 x)"
    and lx: "is_digit (last (take 10 x))"
    by simp_all
  from iso_date_facts[OF m] have sh: "iso_shaped (take 10 x)" by simp
  have "r \<noteq> [] \<and> is_digit (last r)"
  proof (cases "strptime_ymd (take 10 x)")
    case None
    then have "r = take 10 x" using r by (simp add: date_repl_def)
    then show ?thesis using lx k by auto
  next
    case (Some d)
    then have rs: "r = strftime d" using r by (simp add: date_repl_def)
    from strftime_letters[OF strptime_ymd_valid[OF Some]] obtain d1 d2 m1 m2 m3 ys where
      s: "strftime d = d1 # d2 # CHR ''-'' # m1 # m2 # m3 # CHR ''-'' # ys" and
      ys: "ys \<noteq> []" "list_all is_digit ys"
      by blast
    have "last r = last ys" unfolding rs s using ys(1) by simp
    moreover have "last ys \<in> set ys" using ys(1) by simp
    ultimately show ?thesis using ys(2) rs s by (simp add: list_all_iff)
  qed
  then show "0 < k \<and> k \<le> length x \<and> r \<noteq> [] \<and> is_word (last r) = is_word (last (take k x))"
    using k lx by (simp add: is_digit_word)
qed (assumption)


subsection \<open>The rules applied twice\<close>

lemma lowered_trans: "lowered a b \<Longrightarrow> lowered b c \<Longrightarrow> lowered a c"
proof (induction arbitrary: c rule: lowered_induct)
  case Nil
  then show ?case by simp
next
  case (Cons x xs y ys)
  from Cons.prems obtain z zs where c: "c = z # zs" by (cases c) (auto simp: lowered_def)
  with Cons.prems have yz: "y = z \<or> y = lower_char z" and l: "lowered ys zs"
    by (simp_all add: lowered_Cons)
  have "x = z \<or> x = lower_char z" using Cons(1) yz lower_char_idem by auto
  then show ?case unfolding c using Cons.IH[OF l] by (simp add: lowered_Cons)
qed

lemma year_old_suffix_last_dose:
  "b \<in> set [''-year-old'', ''year-old'', ''ear-old'', ''ar-old'', ''r-old'', ''-old'',
             ''old'', ''ld'', ''d''] \<Longrightarrow> \<not> starts_with True ''last dose'' (b @ z)"
proof
  assume b: "b \<in> set [''-year-old'', ''year-old'', ''ear-old'', ''ar-old'', ''r-old'', ''-old'',
             ''old'', ''ld'', ''d'']"
  assume "starts_with True ''last dose'' (b @ z)"
  from starts_with_last_dose[OF this] obtain c1 c2 rest where
    "b @ z = c1 # c2 # rest" "lower_char c1 = CHR ''l''" "lower_char c2 = CHR ''a''"
    by blast
  with b show False by (auto simp: char_class_defs)
qed

lemma starts_with_two:
  assumes "starts_with True (p1 # p2 # ps) y"
  shows "\<exists>c1 c2 rest. y = c1 # c2 # rest \<and> lower_char c1 = lower_char p1 \<and>
           lower_char c2 = lower_char p2"
proof -
  from assms have len: "2 \<le> length y"
    and low: "lower (take (length (p1 # p2 # ps)) y) = lower (p1 # p2 # ps)"
    by (simp_all add: starts_with_def)
  from len obtain c1 c2 rest where y: "y = c1 # c2 # rest"
    by (cases y; cases "tl y") auto
  from low show ?thesis unfolding y by (simp add: lower_def)
qed

lemma year_old_suffix_trigger:
  assumes b: "b \<in> set [''-year-old'', ''year-old'', ''ear-old'', ''ar-old'', ''r-old'', ''-old'',
             ''old'', ''ld'', ''d'']"
    and p: "lower_char p1 = CHR ''a''" "lower_char p2 = CHR ''c'' \<or> lower_char p2 = CHR ''s''"
  shows "\<not> starts_with True (p1 # p2 # ps) (b @ z)"
proof
  assume "starts_with True (p1 # p2 # ps) (b @ z)"
  from starts_with_two[OF this] obtain c1 c2 rest where
    "b @ z = c1 # c2 # rest" "lower_char c1 = lower_char p1" "lower_char c2 = lower_char p2"
    by blast
  with b p show False by (auto simp: char_class_defs)
qed

lemma race_white:
  shows "lowered ''White'' ''WHITE''"
    and "''White'' \<noteq> ''WHITE''"
    and "''WHITE'' \<noteq> []"
    and "list_all (\<lambda>c. \<not> is_lower c) ''WHITE''"
    and "hd ''WHITE'' \<notin> set (tl ''White'')"
  by (simp_all add: lowered_def char_class_defs)

lemma race_black:
  shows "lowered ''Black or African American'' ''BLACK OR AFRICAN AMERICAN''"
    and "''Black or African American'' \<noteq> ''BLACK OR AFRICAN AMERICAN''"
    and "''BLACK OR AFRICAN AMERICAN'' \<noteq> []"
    and "list_all (\<lambda>c. \<not> is_lower c) ''BLACK OR AFRICAN AMERICAN''"
    and "hd ''BLACK OR AFRICAN AMERICAN'' \<notin> set (tl ''Black or African American'')"
  by (simp_all add: lowered_def char_class_defs)

lemma race_asian:
  shows "lowered ''Asian'' ''ASIAN''"
    and "''Asian'' \<noteq> ''ASIAN''"
    and "''ASIAN'' \<noteq> []"
    and "list_all (\<lambda>c. \<not> is_lower c) ''ASIAN''"
    and "hd ''ASIAN'' \<notin> set (tl ''Asian'')"
  by (simp_all add: lowered_def char_class_defs)

lemma race_not_hispanic:
  shows "lowered ''Not Hispanic or Latino'' ''NOT HISPANIC OR LATINO''"
    and "''Not Hispanic or Latino'' \<noteq> ''NOT HISPANIC OR LATINO''"
    and "''NOT HISPANIC OR LATINO'' \<noteq> []"
    and "list_all (\<lambda>c. \<not> is_lower c) ''NOT HISPANIC OR LATINO''"
    and "hd ''NOT HISPANIC OR LATINO'' \<notin> set (tl ''Not Hispanic or Latino'')"
  by (simp_all add: lowered_def char_class_defs)

lemma race_hispanic:
  shows "lowered ''Hispanic or Latino'' ''HISPANIC OR LATINO''"
    and "''Hispanic or Latino'' \<noteq> ''HISPANIC OR LATINO''"
    and "''HISPANIC OR LATINO'' \<noteq> []"
    and "list_all (\<lambda>c. \<not> is_lower c) ''HISPANIC OR LATINO''"
    and "hd ''HISPANIC OR LATINO'' \<notin> set (tl ''Hispanic or Latino'')"
  by (simp_all add: lowered_def char_class_defs)

lemma quiet_last_dose:
  "quiet (word_literal True ''last dose'' ''most recent dose'') w
     (re_sub (word_literal True ''last dose'' ''most recent dose'') w s)"
proof (rule quiet_ci_literal)
  show "''last dose'' \<noteq> []" by simp
  show "''most recent dose'' \<noteq> []" by simp
  show "length ''most recent dose'' \<noteq> length ''last dose''" by simp
  show "lower_char c \<noteq> lower_char (hd ''last dose'')" if "c \<in> set ''most recent dose''" for c
    using that by (auto simp: char_class_defs)
  show "lower_char (hd ''most recent dose'') \<notin> set (lower ''last dose'')"
    by (simp add: lower_def char_class_defs)
  show "is_word (last ''most recent dose'') = is_word (last ''last dose'')" by simp
  show "is_word (hd ''most recent dose'') = is_word (hd ''last dose'')"
    by (simp add: char_class_defs)
qed

text \<open>The result of the rules is a text that every rule but rule 2 leaves as it is.\<close>

lemma apply_business_rules_quiet:
  "quiet (word_literal True ''last dose'' ''most recent dose'') False (apply_business_rules t) \<and>
   quiet (clause_after ''action taken with study drug was '') False (apply_business_rules t) \<and>
   quiet (clause_after ''assessed the event as '') False (apply_business_rules t) \<and>
   quiet years_old False (apply_business_rules t) \<and>
   quiet (word_literal False ''WHITE'' ''White'') False (apply_business_rules t) \<and>
   quiet (word_literal False ''BLACK OR AFRICAN AMERICAN'' ''Black or African American'') False
     (apply_business_rules t) \<and>
   quiet (word_literal False ''ASIAN'' ''Asian'') False (apply_business_rules t) \<and>
   quiet (word_literal False ''NOT HISPANIC OR LATINO'' ''Not Hispanic or Latino'') False
     (apply_business_rules t) \<and>
   quiet (word_literal False ''HISPANIC OR LATINO'' ''Hispanic or Latino'') False
     (apply_business_rules t) \<and>
   quiet sae_of False (apply_business_rules t)"
proof -
  let ?m1 = "word_literal True ''last dose'' ''most recent dose''"
  let ?m3 = "clause_after ''action taken with study drug was ''"
  let ?m4 = "clause_after ''assessed the event as ''"
  let ?ma = "word_literal False ''WHITE'' ''White''"
  let ?mb = "word_literal False ''BLACK OR AFRICAN AMERICAN'' ''Black or African American''"
  let ?mc = "word_literal False ''ASIAN'' ''Asian''"
  let ?md = "word_literal False ''NOT HISPANIC OR LATINO'' ''Not Hispanic or Latino''"
  let ?me = "word_literal False ''HISPANIC OR LATINO'' ''Hispanic or Latino''"
  define t1 where "t1 = re_sub ?m1 False t"
  define t2 where "t2 = re_sub iso_date False t1"
  define t3 where "t3 = re_sub ?m3 False t2"
  define t4 where "t4 = re_sub ?m4 False t3"
  define t5 where "t5 = re_sub years_old False t4"
  define ta where "ta = re_sub ?ma False t5"
  define tb where "tb = re_sub ?mb False ta"
  define tc where "tc = re_sub ?mc False tb"
  define td where "td = re_sub ?md False tc"
  define te where "te = re_sub ?me False td"
  define t7 where "t7 = re_sub sae_of False te"
  have s: "apply_business_rules t = t7"
    unfolding apply_business_rules_def Let_def t7_def te_def td_def tc_def tb_def ta_def
      t5_def t4_def t3_def t2_def t1_def
    by (rule refl)
  have l3: "lowered t3 t2" unfolding t3_def by (rule re_sub_clause_lowered)
  have l4: "lowered t4 t3" unfolding t4_def by (rule re_sub_clause_lowered)
  have la: "lowered ta t5" unfolding ta_def
    by (rule re_sub_cs_literal_lowered[OF race_white(1) race_white(3)])
  have lb: "lowered tb ta" unfolding tb_def
    by (rule re_sub_cs_literal_lowered[OF race_black(1) race_black(3)])
  have lc: "lowered tc tb" unfolding tc_def
    by (rule re_sub_cs_literal_lowered[OF race_asian(1) race_asian(3)])
  have ld: "lowered td tc" unfolding td_def
    by (rule re_sub_cs_literal_lowered[OF race_not_hispanic(1) race_not_hispanic(3)])
  have le: "lowered te td" unfolding te_def
    by (rule re_sub_cs_literal_lowered[OF race_hispanic(1) race_hispanic(3)])
  have l7e: "lowered t7 te" unfolding t7_def by (rule re_sub_sae_of_lowered)
  have l7d: "lowered t7 td" by (rule lowered_trans[OF l7e le])
  have l7c: "lowered t7 tc" by (rule lowered_trans[OF l7d ld])
  have l7b: "lowered t7 tb" by (rule lowered_trans[OF l7c lc])
  have l7a: "lowered t7 ta" by (rule lowered_trans[OF l7b lb])
  have l75: "lowered t7 t5" by (rule lowered_trans[OF l7a la])
  have l42: "lowered t4 t2" by (rule lowered_trans[OF l4 l3])
  have nd1: "list_all (\<lambda>x. \<not> is_digit x) ''last dose''"
    by (simp add: is_digit_def digits_def)
  have nd3: "list_all (\<lambda>x. \<not> is_digit x) ''action taken with study drug was ''"
    by (simp add: is_digit_def digits_def)
  have nd4: "list_all (\<lambda>x. \<not> is_digit x) ''assessed the event as ''"
    by (simp add: is_digit_def digits_def)
  have len1: "length ''most recent dose'' \<noteq> length ''last dose''" by simp
  have q11: "quiet ?m1 False t1" unfolding t1_def by (rule quiet_last_dose)
  have q12: "quiet ?m1 False t2" unfolding t2_def
    using q11 by (rule quiet_last_dose_iso_date[rotated]) simp
  have q14: "quiet ?m1 False t4" by (rule quiet_ci_literal_lowered[OF len1 l42 q12])
  have q15: "quiet ?m1 False t5" unfolding t5_def
  proof (rule quiet_ci_literal_years_old)
    show "''last dose'' \<noteq> []" by simp
    show "list_all (\<lambda>x. \<not> is_digit x) ''last dose''" by (rule nd1)
    show "length ''most recent dose'' \<noteq> length ''last dose''" by (rule len1)
    show "\<not> starts_with True ''last dose'' (b @ z)"
      if "b \<in> set [''-year-old'', ''year-old'', ''ear-old'', ''ar-old'', ''r-old'',
                 ''-old'', ''old'', ''ld'', ''d'']" for b z
      using that by (rule year_old_suffix_last_dose)
    show "quiet ?m1 False t4" by (rule q14)
  qed
  have q17: "quiet ?m1 False t7" by (rule quiet_ci_literal_lowered[OF len1 l75 q15])
  have q33: "quiet ?m3 False t3" unfolding t3_def by (rule quiet_clause) simp_all
  have q34: "quiet ?m3 False t4" by (rule quiet_clause_lowered[OF l4 q33])
  have q35: "quiet ?m3 False t5" unfolding t5_def
  proof (rule quiet_clause_years_old)
    show "''action taken with study drug was '' \<noteq> []" by simp
    show "list_all (\<lambda>x. \<not> is_digit x) ''action taken with study drug was ''" by (rule nd3)
    show "\<not> starts_with True ''action taken with study drug was '' (b @ z)"
      if "b \<in> set [''-year-old'', ''year-old'', ''ear-old'', ''ar-old'', ''r-old'',
                 ''-old'', ''old'', ''ld'', ''d'']" for b z
      using that by (rule year_old_suffix_trigger) (simp_all add: char_class_defs)
    show "quiet ?m3 False t4" by (rule q34)
  qed
  have q37: "quiet ?m3 False t7" by (rule quiet_clause_lowered[OF l75 q35])
  have q44: "quiet ?m4 False t4" unfolding t4_def by (rule quiet_clause) simp_all
  have q45: "quiet ?m4 False t5" unfolding t5_def
  proof (rule quiet_clause_years_old)
    show "''assessed the event as '' \<noteq> []" by simp
    show "list_all (\<lambda>x. \<not> is_digit x) ''assessed the event as ''" by (rule nd4)
    show "\<not> starts_with True ''assessed the event as '' (b @ z)"
      if "b \<in> set [''-year-old'', ''year-old'', ''ear-old'', ''ar-old'', ''r-old'',
                 ''-old'', ''old'', ''ld'', ''d'']" for b z
      using that by (rule year_old_suffix_trigger) (simp_all add: char_class_defs)
    show "quiet ?m4 False t4" by (rule q44)
  qed
  have q47: "quiet ?m4 False t7" by (rule quiet_clause_lowered[OF l75 q45])
  have q55: "quiet years_old False t5" unfolding t5_def by (rule quiet_years_old)
  have q57: "quiet years_old False t7" by (rule quiet_years_lowered[OF l75 q55])
  have qaa: "quiet ?ma False ta" unfolding ta_def by (rule quiet_cs_literal[OF race_white])
  have qa7: "quiet ?ma False t7"
    by (rule quiet_cs_literal_lowered[OF race_white(2) race_white(4) l7a qaa])
  have qbb: "quiet ?mb False tb" unfolding tb_def by (rule quiet_cs_literal[OF race_black])
  have qb7: "quiet ?mb False t7"
    by (rule quiet_cs_literal_lowered[OF race_black(2) race_black(4) l7b qbb])
  have qcc: "quiet ?mc False tc" unfolding tc_def by (rule quiet_cs_literal[OF race_asian])
  have qc7: "quiet ?mc False t7"
    by (rule quiet_cs_literal_lowered[OF race_asian(2) race_asian(4) l7c qcc])
  have qdd: "quiet ?md False td" unfolding td_def
    by (rule quiet_cs_literal[OF race_not_hispanic])
  have qd7: "quiet ?md False t7"
    by (rule quiet_cs_literal_lowered[OF race_not_hispanic(2) race_not_hispanic(4) l7d qdd])
  have qee: "quiet ?me False te" unfolding te_def by (rule quiet_cs_literal[OF race_hispanic])
  have qe7: "quiet ?me False t7"
    by (rule quiet_cs_literal_lowered[OF race_hispanic(2) race_hispanic(4) l7e qee])
  have q77: "quiet sae_of False t7" unfolding t7_def by (rule quiet_sae_of)
  show ?thesis unfolding s using q17 q37 q47 q57 qa7 qb7 qc7 qd7 qe7 q77 by blast
qed

lemma apply_business_rules_fixed:
  assumes "re_sub (word_literal True ''last dose'' ''most recent dose'') False s = s"
    and "re_sub iso_date False s = s"
    and "re_sub (clause_after ''action taken with study drug was '') False s = s"
    and "re_sub (clause_after ''assessed the event as '') False s = s"
    and "re_sub years_old False s = s"
    and "re_sub (word_literal False ''WHITE'' ''White'') False s = s"
    and "re_sub (word_literal False ''BLACK OR AFRICAN AMERICAN'' ''Black or African American'')
           False s = s"
    and "re_sub (word_literal False ''ASIAN'' ''Asian'') False s = s"
    and "re_sub (word_literal False ''NOT HISPANIC OR LATINO'' ''Not Hispanic or Latino'')
           False s = s"
    and "re_sub (word_literal False ''HISPANIC OR LATINO'' ''Hispanic or Latino'') False s = s"
    and "re_sub sae_of False s = s"
  shows "apply_business_rules s = s"
  unfolding apply_business_rules_def Let_def by (simp only: assms)

text \<open>
  C5, as the code has it. The claim as stated fails (see the counterexample): rule 2 can
  find a new ISO date in the text it has itself produced. What holds, for every text \<open>t\<close>
  of ASCII characters: if rule 2 leaves the result of \<^verbatim>\<open>apply_business_rules\<close> unchanged
  (the result holds no token \<^verbatim>\<open>dddd-dd-dd\<close> between word boundaries that parses as a date),
  then applying \<^verbatim>\<open>apply_business_rules\<close> to that result returns it unchanged. Rules 1 and
  3 to 7 never act on the result: rule 2 is the only rule that can.
\<close>

theorem apply_business_rules_twice:
  assumes "re_sub iso_date False (apply_business_rules t) = apply_business_rules t"
  shows "apply_business_rules (apply_business_rules t) = apply_business_rules t"
proof (rule apply_business_rules_fixed)
  show "re_sub iso_date False (apply_business_rules t) = apply_business_rules t"
    by (rule assms)
qed (rule re_sub_quiet, use apply_business_rules_quiet[of t] in blast)+

theorem apply_business_rules_twice_witness:
  "apply_business_rules ''LAST DOSE on 2023-12-20'' = ''most recent dose on 20-Dec-2023'' \<and>
   re_sub iso_date False ''most recent dose on 20-Dec-2023'' = ''most recent dose on 20-Dec-2023'' \<and>
   apply_business_rules ''most recent dose on 20-Dec-2023'' = ''most recent dose on 20-Dec-2023''"
proof -
  have v: "apply_business_rules ''LAST DOSE on 2023-12-20'' = ''most recent dose on 20-Dec-2023''"
    by code_simp
  have h: "re_sub iso_date False ''most recent dose on 20-Dec-2023'' =
             ''most recent dose on 20-Dec-2023''"
    by code_simp
  have "apply_business_rules ''most recent dose on 20-Dec-2023'' =
          ''most recent dose on 20-Dec-2023''"
    using apply_business_rules_twice[of "''LAST DOSE on 2023-12-20''"] h unfolding v by simp
  with v h show ?thesis by blast
qed

text \<open>
  C5, counterexample: in \<^verbatim>\<open>2023-12-20-11-05\<close> rule 2 rewrites the date \<^verbatim>\<open>2023-12-20\<close>; the year
  it writes, followed by \<^verbatim>\<open>-11-05\<close>, is a new ISO date, which a second application rewrites.
  The two applications give different texts.
\<close>

theorem apply_business_rules_twice_counterexample:
  "apply_business_rules ''2023-12-20-11-05'' = ''20-Dec-2023-11-05'' \<and>
   apply_business_rules ''20-Dec-2023-11-05'' = ''20-Dec-05-Nov-2023''"
  by code_simp

end
